theory Spec2Isabelle
  imports Main "HOL-Library.AList"
begin

section \<open>Values and dictionaries\<close>

text \<open>
  Python values that reach the configuration tree: \<open>None\<close>, strings, integers and
  booleans. Strings are lists of 8-bit characters. Floating point values and lists are left out.
\<close>

datatype pyval = PNone | PStr string | PInt int | PBool bool

text \<open>Python's \<open>==\<close> on these values: \<open>bool\<close> is a subclass of \<open>int\<close>, so
  \<open>True == 1\<close> and \<open>False == 0\<close>.\<close>

fun py_num :: "pyval \<Rightarrow> int option" where
  "py_num (PInt i) = Some i"
| "py_num (PBool b) = Some (if b then 1 else 0)"
| "py_num _ = None"

fun py_eq :: "pyval \<Rightarrow> pyval \<Rightarrow> bool" where
  "py_eq PNone PNone = True"
| "py_eq (PStr a) (PStr b) = (a = b)"
| "py_eq a b = (case (py_num a, py_num b) of (Some i, Some j) \<Rightarrow> i = j | _ \<Rightarrow> False)"

text \<open>
  A Python \<open>dict\<close> with string keys is an association list in insertion order; a
  well-formed one has distinct keys. \<open>d[k] = v\<close> is \<^const>\<open>AList.update\<close>: an existing
  key keeps its position, a new key goes to the end.
\<close>

datatype dictval = DScalar pyval | DDict "(string \<times> dictval) list"

type_synonym pydict = "(string \<times> dictval) list"

fun wf_dict :: "pydict \<Rightarrow> bool"
  and wf_dictval :: "dictval \<Rightarrow> bool" where
  "wf_dict [] = True"
| "wf_dict ((k, v) # rest) = (k \<notin> fst ` set rest \<and> wf_dictval v \<and> wf_dict rest)"
| "wf_dictval (DScalar v) = True"
| "wf_dictval (DDict d) = wf_dict d"

text \<open>No \<open>None\<close> value and no empty nested dictionary, at any depth.\<close>

fun populated :: "pydict \<Rightarrow> bool"
  and populated_val :: "dictval \<Rightarrow> bool" where
  "populated [] = True"
| "populated ((k, v) # rest) = (populated_val v \<and> populated rest)"
| "populated_val (DScalar v) = (v \<noteq> PNone)"
| "populated_val (DDict d) = (d \<noteq> [] \<and> populated d)"

section \<open>The configuration tree (config_parser.py)\<close>

datatype ConfigNode = ConfigNode
  (path: "string list")
  (nvalue: pyval)
  (children: "(string \<times> ConfigNode) list")
  (deleted: bool)
  (comment: "string option")

text \<open>\<open>ConfigNode(path=p)\<close>: the dataclass defaults.\<close>

definition new_node :: "string list \<Rightarrow> ConfigNode" where
  "new_node p = ConfigNode p PNone [] False None"

fun with_children :: "ConfigNode \<Rightarrow> (string \<times> ConfigNode) list \<Rightarrow> ConfigNode" where
  "with_children (ConfigNode p v cs d m) cs' = ConfigNode p v cs' d m"

fun with_deleted :: "ConfigNode \<Rightarrow> bool \<Rightarrow> ConfigNode" where
  "with_deleted (ConfigNode p v cs d m) d' = ConfigNode p v cs d' m"

fun with_comment :: "ConfigNode \<Rightarrow> string option \<Rightarrow> ConfigNode" where
  "with_comment (ConfigNode p v cs d m) m' = ConfigNode p v cs d m'"

text \<open>
  \<open>get_child(*path_parts)\<close>.
\<close>

fun get_child :: "ConfigNode \<Rightarrow> string list \<Rightarrow> ConfigNode option" where
  "get_child n [] = Some n"
| "get_child n (first # rest) =
     (case map_of (children n) first of
        None \<Rightarrow> None
      | Some c \<Rightarrow> get_child c rest)"

text \<open>
  \<open>add_child(name)\<close> returns the child, new or existing, and may have added it to the
  node: the model returns the node after the call and the child. The node's value is not
  touched.
\<close>

definition add_child :: "ConfigNode \<Rightarrow> string \<Rightarrow> ConfigNode \<times> ConfigNode" where
  "add_child n name =
     (case map_of (children n) name of
        None \<Rightarrow>
          (let c = new_node (path n @ [name])
           in (with_children n (children n @ [(name, c)]), c))
      | Some c \<Rightarrow> (n, c))"

text \<open>
  The caller mutates the child it got from \<open>add_child\<close> in place; in the model the
  changed child is written back under its name.
\<close>

definition put_child :: "ConfigNode \<Rightarrow> string \<Rightarrow> ConfigNode \<Rightarrow> ConfigNode" where
  "put_child n name c = with_children n (AList.update name c (children n))"

text \<open>\<open>set_value(value)\<close>: \<open>self.value = value; self.children.clear()\<close>.\<close>

definition set_value :: "ConfigNode \<Rightarrow> pyval \<Rightarrow> ConfigNode" where
  "set_value n v = ConfigNode (path n) v [] (deleted n) (comment n)"

text \<open>
  \<open>to_dict()\<close>. The names of a node's children are the keys of a dictionary, so
  \<open>result[name] = ...\<close> always adds a new key at the end of \<open>result\<close>.
\<close>

fun to_dict :: "ConfigNode \<Rightarrow> pydict"
  and to_dict_items :: "(string \<times> ConfigNode) list \<Rightarrow> pydict" where
  "to_dict (ConfigNode p v cs d m) = to_dict_items cs"
| "to_dict_items [] = []"
| "to_dict_items ((name, child) # rest) =
     (if deleted child then to_dict_items rest
      else if nvalue child \<noteq> PNone then (name, DScalar (nvalue child)) # to_dict_items rest
      else if children child \<noteq> [] then (name, DDict (to_dict child)) # to_dict_items rest
      else to_dict_items rest)"

text \<open>\<open>from_dict(data)\<close> with its inner \<open>_populate(node, data)\<close>.\<close>

fun populate :: "ConfigNode \<Rightarrow> pydict \<Rightarrow> ConfigNode" where
  "populate node [] = node"
| "populate node ((key, DDict d) # rest) =
     (let (node1, child) = add_child node key
      in populate (put_child node1 key (populate child d)) rest)"
| "populate node ((key, DScalar v) # rest) =
     (let (node1, child) = add_child node key
      in populate (put_child node1 key (set_value child v)) rest)"

definition from_dict :: "pydict \<Rightarrow> ConfigNode" where
  "from_dict data = populate (new_node []) data"

text \<open>
  \<open>flatten()\<close> with its inner \<open>_flatten(node, prefix)\<close>, which writes into the
  dictionary \<open>result\<close> of the enclosing call; the model passes \<open>result\<close> through.
\<close>

type_synonym flatdict = "(string \<times> pyval) list"

fun flatten_inner :: "ConfigNode \<Rightarrow> string \<Rightarrow> flatdict \<Rightarrow> flatdict"
  and flatten_items :: "(string \<times> ConfigNode) list \<Rightarrow> string \<Rightarrow> flatdict \<Rightarrow> flatdict" where
  "flatten_inner (ConfigNode p v cs d m) prefix result = flatten_items cs prefix result"
| "flatten_items [] prefix result = result"
| "flatten_items ((name, child) # rest) prefix result =
     (let full_path = (if prefix \<noteq> [] then prefix @ name else name)
      in if nvalue child \<noteq> PNone
         then flatten_items rest prefix (AList.update full_path (nvalue child) result)
         else if children child \<noteq> []
         then flatten_items rest prefix (flatten_inner child (full_path @ ''.'') result)
         else flatten_items rest prefix result)"

definition flatten :: "ConfigNode \<Rightarrow> flatdict" where
  "flatten n = flatten_inner n [] []"

record ConfigDiff =
  added :: "(string \<times> pyval) list"
  removed :: "(string \<times> pyval) list"
  modified :: "(string \<times> (pyval \<times> pyval)) list"

section \<open>Strings as Python handles them\<close>

text \<open>
  \<open>str.isspace\<close>, \<open>str.strip\<close>, \<open>str.split\<close> and the pattern class \<open>\s\<close> share one
  notion of whitespace; these are its characters below code point 256.
\<close>

definition is_space :: "char \<Rightarrow> bool" where
  "is_space c = (c \<in> set [CHR 0x09, CHR 0x0A, CHR 0x0B, CHR 0x0C, CHR 0x0D,
                           CHR 0x1C, CHR 0x1D, CHR 0x1E, CHR 0x1F, CHR 0x20,
                           CHR 0x85, CHR 0xA0])"

definition strip :: "string \<Rightarrow> string" where
  "strip s = rev (dropWhile is_space (rev (dropWhile is_space s)))"

text \<open>\<open>s.split(sep)\<close> for a one-character separator: always at least one part.\<close>

fun split_chr :: "char \<Rightarrow> string \<Rightarrow> string list" where
  "split_chr sep [] = [[]]"
| "split_chr sep (c # cs) =
     (if c = sep then [] # split_chr sep cs
      else (case split_chr sep cs of
              [] \<Rightarrow> [[c]]
            | w # ws \<Rightarrow> (c # w) # ws))"

text \<open>\<open>s.split()\<close>: the maximal runs of characters that are not whitespace.\<close>

fun split_ws_loop :: "string \<Rightarrow> string \<Rightarrow> string list" where
  "split_ws_loop cur [] = (if cur \<noteq> [] then [cur] else [])"
| "split_ws_loop cur (c # cs) =
     (if is_space c then (if cur \<noteq> [] then cur # split_ws_loop [] cs else split_ws_loop [] cs)
      else split_ws_loop (cur @ [c]) cs)"

definition split_ws :: "string \<Rightarrow> string list" where
  "split_ws s = split_ws_loop [] s"

text \<open>\<open>s.rsplit(" ", 1)\<close>: split once, at the last space, when there is one.\<close>

definition rsplit_space1 :: "string \<Rightarrow> string list" where
  "rsplit_space1 s =
     (if CHR '' '' \<in> set s
      then (let after = rev (takeWhile (\<lambda>c. c \<noteq> CHR '' '') (rev s))
            in [take (length s - length after - 1) s, after])
      else [s])"

text \<open>Lower case of an ASCII letter, for patterns compiled with \<open>re.IGNORECASE\<close>.\<close>

definition lower_chr :: "char \<Rightarrow> char" where
  "lower_chr c =
     (if (of_char c :: nat) \<ge> 65 \<and> (of_char c :: nat) \<le> 90
      then char_of ((of_char c :: nat) + 32) else c)"

definition starts_ci :: "string \<Rightarrow> string \<Rightarrow> bool" where
  "starts_ci kw s = (length kw \<le> length s \<and> map lower_chr (take (length kw) s) = kw)"

section \<open>The command parser (vyos_syntax.py)\<close>

record ConfigCommand =
  command_type :: string
  cpath :: "string list"
  cvalue :: "string option"
  original :: string

subsection \<open>The regular expressions\<close>

text \<open>
  \<open>re.match\<close> searches by backtracking: a greedy quantifier tries its longest match
  first, a lazy one its shortest, and the first complete match gives the groups. Each
  pattern below is that search, written out; \<open>first_some\<close> picks the first success.
\<close>

fun first_some :: "'a option list \<Rightarrow> 'a option" where
  "first_some [] = None"
| "first_some (None # rest) = first_some rest"
| "first_some (Some x # rest) = Some x"

text \<open>The lengths a greedy \<open>+\<close> tries when at most \<open>n\<close> characters fit: \<open>n, ..., 1\<close>.\<close>

definition counts_desc :: "nat \<Rightarrow> nat list" where
  "counts_desc n = rev [1..<Suc n]"

definition ws_run :: "string \<Rightarrow> nat" where
  "ws_run s = length (takeWhile is_space s)"

text \<open>
  The tail \<open>(.+)$\<close> of every pattern, on the rest \<open>t\<close> of the subject: \<open>.\<close> is any
  character but a newline, and \<open>$\<close> holds at the end of the subject or before a newline
  that ends it. So the group is the text up to the first newline, and nothing but that
  one newline may follow.
\<close>

definition dot_plus_end :: "string \<Rightarrow> string option" where
  "dot_plus_end t =
     (let u = takeWhile (\<lambda>c. c \<noteq> CHR 0x0A) t;
          v = drop (length u) t
      in if u \<noteq> [] \<and> (v = [] \<or> v = [CHR 0x0A]) then Some u else None)"

text \<open>
  \<open>^\s*KW\s+(.+)$\<close> with \<open>re.IGNORECASE\<close>, for \<open>SET_PATTERN\<close>, \<open>DELETE_PATTERN\<close> and
  \<open>EDIT_PATTERN\<close>. The keyword has no whitespace, so \<open>\s*\<close> takes all the leading
  whitespace.
\<close>

definition match_keyword :: "string \<Rightarrow> string \<Rightarrow> string option" where
  "match_keyword kw s =
     (let s1 = dropWhile is_space s
      in if \<not> starts_ci kw s1 then None
         else (let r = drop (length kw) s1
               in first_some (map (\<lambda>j. dot_plus_end (drop j r)) (counts_desc (ws_run r)))))"

text \<open>\<open>COMMENT_PATTERN = ^\s*comment\s+(.+?)\s+(.+)$\<close>.\<close>

definition match_comment :: "string \<Rightarrow> (string \<times> string) option" where
  "match_comment s =
     (let s1 = dropWhile is_space s
      in if \<not> starts_ci ''comment'' s1 then None
         else (let r = drop 7 s1
               in first_some (concat (map (\<lambda>j.
                    (let t = drop j r
                     in concat (map (\<lambda>i.
                          if CHR 0x0A \<in> set (take i t) then []
                          else map (\<lambda>k. map_option (\<lambda>g2. (take i t, g2))
                                            (dot_plus_end (drop (i + k) t)))
                                   (counts_desc (ws_run (drop i t))))
                        [1..<Suc (length t)])))
                  (counts_desc (ws_run r))))))"

text \<open>\<open>RENAME_PATTERN = ^\s*rename\s+(.+?)\s+to\s+(.+)$\<close>.\<close>

definition match_rename :: "string \<Rightarrow> (string \<times> string) option" where
  "match_rename s =
     (let s1 = dropWhile is_space s
      in if \<not> starts_ci ''rename'' s1 then None
         else (let r = drop 6 s1
               in first_some (concat (map (\<lambda>j.
                    (let t = drop j r
                     in concat (map (\<lambda>i.
                          if CHR 0x0A \<in> set (take i t) then []
                          else concat (map (\<lambda>k.
                                 (let t2 = drop (i + k) t
                                  in if \<not> starts_ci ''to'' t2 then []
                                     else map (\<lambda>l. map_option (\<lambda>g2. (take i t, g2))
                                                       (dot_plus_end (drop (2 + l) t2)))
                                              (counts_desc (ws_run (drop 2 t2)))))
                               (counts_desc (ws_run (drop i t)))))
                        [1..<Suc (length t)])))
                  (counts_desc (ws_run r))))))"

text \<open>
  \<open>VALUE_PATTERN = ^\s*([^ ]+)\s+(.+)$\<close>: the first group is a run of characters other
  than the space character.
\<close>

definition match_value :: "string \<Rightarrow> (string \<times> string) option" where
  "match_value s =
     first_some (concat (map (\<lambda>a.
       (let t = drop a s
        in concat (map (\<lambda>g.
             map (\<lambda>k. map_option (\<lambda>g2. (take g t, g2)) (dot_plus_end (drop (g + k) t)))
                 (counts_desc (ws_run (drop g t))))
           (counts_desc (length (takeWhile (\<lambda>c. c \<noteq> CHR '' '') t))))))
     (rev [0..<Suc (ws_run s)])))"

subsection \<open>Tokens, paths and values\<close>

text \<open>
  \<open>_tokenize_path\<close>: the loop over the characters, with its four variables. The quote
  character starts as the empty string, which equals no character.
\<close>

fun tokenize_loop ::
  "string \<Rightarrow> string list \<Rightarrow> string \<Rightarrow> bool \<Rightarrow> char option \<Rightarrow> string list" where
  "tokenize_loop [] tokens current_token in_quotes quote_char =
     (if current_token \<noteq> [] then tokens @ [current_token] else tokens)"
| "tokenize_loop (c # cs) tokens current_token in_quotes quote_char =
     (if (c = CHR 0x22 \<or> c = CHR 0x27) \<and> (\<not> in_quotes \<or> Some c = quote_char)
      then tokenize_loop cs tokens current_token (\<not> in_quotes) (Some c)
      else if is_space c \<and> \<not> in_quotes
      then (if current_token \<noteq> []
            then tokenize_loop cs (tokens @ [current_token]) [] in_quotes quote_char
            else tokenize_loop cs tokens current_token in_quotes quote_char)
      else tokenize_loop cs tokens (current_token @ [c]) in_quotes quote_char)"

definition tokenize_path :: "string \<Rightarrow> string list" where
  "tokenize_path path_str = tokenize_loop path_str [] [] False None"

text \<open>
  The two quotation variables of that loop at the end of a string: whether the scan ends
  inside a quotation, and the quote character that opened it.
\<close>

fun quote_scan :: "string \<Rightarrow> bool \<Rightarrow> char option \<Rightarrow> bool \<times> char option" where
  "quote_scan [] in_quotes quote_char = (in_quotes, quote_char)"
| "quote_scan (c # cs) in_quotes quote_char =
     (if (c = CHR 0x22 \<or> c = CHR 0x27) \<and> (\<not> in_quotes \<or> Some c = quote_char)
      then quote_scan cs (\<not> in_quotes) (Some c)
      else quote_scan cs in_quotes quote_char)"

definition unterminated_quote :: "string \<Rightarrow> bool" where
  "unterminated_quote s = fst (quote_scan s False None)"

definition closing_quote :: "string \<Rightarrow> string" where
  "closing_quote s = (case snd (quote_scan s False None) of None \<Rightarrow> [] | Some q \<Rightarrow> [q])"

definition split_path_and_value :: "string \<Rightarrow> string list \<times> string option" where
  "split_path_and_value path_str =
     (case match_value path_str of
        Some (g1, g2) \<Rightarrow> ([g1], Some g2)
      | None \<Rightarrow>
          (case rsplit_space1 path_str of
             [p0, p1] \<Rightarrow> (split_ws p0, Some p1)
           | _ \<Rightarrow> (split_ws path_str, None)))"

definition parse_set_command :: "string \<Rightarrow> string \<Rightarrow> ConfigCommand" where
  "parse_set_command g1 orig =
     (let (p, v) = split_path_and_value (strip g1)
      in \<lparr>command_type = ''set'', cpath = p, cvalue = v, original = orig\<rparr>)"

definition parse_delete_command :: "string \<Rightarrow> string \<Rightarrow> ConfigCommand" where
  "parse_delete_command g1 orig =
     \<lparr>command_type = ''delete'', cpath = tokenize_path (strip g1), cvalue = None,
      original = orig\<rparr>"

definition parse_comment_command :: "string \<times> string \<Rightarrow> string \<Rightarrow> ConfigCommand" where
  "parse_comment_command g orig =
     \<lparr>command_type = ''comment'', cpath = tokenize_path (strip (fst g)),
      cvalue = Some (strip (snd g)), original = orig\<rparr>"

definition parse_rename_command :: "string \<times> string \<Rightarrow> string \<Rightarrow> ConfigCommand" where
  "parse_rename_command g orig =
     \<lparr>command_type = ''rename'', cpath = tokenize_path (strip (fst g)),
      cvalue = Some (strip (snd g)), original = orig\<rparr>"

definition parse_edit_command :: "string \<Rightarrow> string \<Rightarrow> ConfigCommand" where
  "parse_edit_command g1 orig =
     \<lparr>command_type = ''edit'', cpath = tokenize_path (strip g1), cvalue = None,
      original = orig\<rparr>"

definition parse_line :: "string \<Rightarrow> ConfigCommand option" where
  "parse_line line0 =
     (let line = strip line0
      in if line = [] \<or> take 1 line = ''#'' \<or> take 1 line = ''!'' then None
         else (case match_keyword ''set'' line of
                 Some g \<Rightarrow> Some (parse_set_command g line)
               | None \<Rightarrow>
           (case match_keyword ''delete'' line of
                 Some g \<Rightarrow> Some (parse_delete_command g line)
               | None \<Rightarrow>
           (case match_comment line of
                 Some g \<Rightarrow> Some (parse_comment_command g line)
               | None \<Rightarrow>
           (case match_rename line of
                 Some g \<Rightarrow> Some (parse_rename_command g line)
               | None \<Rightarrow>
           (case match_keyword ''edit'' line of
                 Some g \<Rightarrow> Some (parse_edit_command g line)
               | None \<Rightarrow> None))))))"

subsection \<open>Applying commands\<close>

text \<open>
  \<open>_apply_command\<close> walks from the root through \<open>command.path[:-1]\<close> with
  \<open>add_child\<close>, for every command type, and then edits the node it reached. The node
  it edits is part of the tree, so each level is written back on the way out.
\<close>

fun navigate :: "string list \<Rightarrow> (ConfigNode \<Rightarrow> ConfigNode) \<Rightarrow> ConfigNode \<Rightarrow> ConfigNode" where
  "navigate [] f node = f node"
| "navigate (part # parts) f node =
     (let (node1, child) = add_child node part
      in put_child node1 part (navigate parts f child))"

definition apply_final :: "ConfigCommand \<Rightarrow> ConfigNode \<Rightarrow> ConfigNode" where
  "apply_final command node =
     (if command_type command = ''set'' then
        (if cpath command \<noteq> [] then
           (let final_part = last (cpath command);
                (node1, child) = add_child node final_part
            in (case cvalue command of
                  Some v \<Rightarrow> put_child node1 final_part (set_value child (PStr v))
                | None \<Rightarrow> node1))
         else node)
      else if command_type command = ''delete'' then
        (if cpath command \<noteq> [] then
           (let final_part = last (cpath command)
            in (case map_of (children node) final_part of
                  Some c \<Rightarrow> put_child node final_part (with_deleted c True)
                | None \<Rightarrow> node))
         else node)
      else if command_type command = ''comment'' then
        (if cpath command \<noteq> [] then
           (let final_part = last (cpath command)
            in (case map_of (children node) final_part of
                  Some c \<Rightarrow> put_child node final_part (with_comment c (cvalue command))
                | None \<Rightarrow> node))
         else node)
      else node)"

definition apply_command :: "ConfigCommand \<Rightarrow> ConfigNode \<Rightarrow> ConfigNode" where
  "apply_command command config_root =
     navigate (butlast (cpath command)) (apply_final command) config_root"

text \<open>The body of the loop of \<open>parse_config\<close>, for one line.\<close>

definition apply_line :: "string \<Rightarrow> ConfigNode \<Rightarrow> ConfigNode" where
  "apply_line line config_root =
     (case parse_line line of
        Some command \<Rightarrow> apply_command command config_root
      | None \<Rightarrow> config_root)"

definition parse_config :: "string \<Rightarrow> ConfigNode" where
  "parse_config config_text =
     fold apply_line (split_chr (CHR 0x0A) config_text) (new_node [])"

subsection \<open>The diff\<close>

text \<open>
  \<open>calculate_diff\<close>. \<open>d.get(key)\<close> is \<open>None\<close> for a missing key. The loop runs over a
  Python set, whose order is not specified; the model takes the keys of the old
  dictionary and then the new keys. The three results are dictionaries, compared by
  their contents (\<^const>\<open>map_of\<close>).
\<close>

definition dict_get :: "flatdict \<Rightarrow> string \<Rightarrow> pyval" where
  "dict_get d key = (case map_of d key of None \<Rightarrow> PNone | Some v \<Rightarrow> v)"

definition diff_step :: "flatdict \<Rightarrow> flatdict \<Rightarrow> string \<Rightarrow> ConfigDiff \<Rightarrow> ConfigDiff" where
  "diff_step old_flat new_flat key diff =
     (let old_value = dict_get old_flat key;
          new_value = dict_get new_flat key
      in if old_value = PNone \<and> new_value \<noteq> PNone
         then diff\<lparr>added := AList.update key new_value (added diff)\<rparr>
         else if old_value \<noteq> PNone \<and> new_value = PNone
         then diff\<lparr>removed := AList.update key old_value (removed diff)\<rparr>
         else if \<not> py_eq old_value new_value
         then diff\<lparr>modified := AList.update key (old_value, new_value) (modified diff)\<rparr>
         else diff)"

definition calculate_diff :: "ConfigNode \<Rightarrow> ConfigNode \<Rightarrow> ConfigDiff" where
  "calculate_diff old_config new_config =
     (let old_flat = flatten old_config;
          new_flat = flatten new_config;
          all_keys = remdups (map fst old_flat @ map fst new_flat)
      in fold (diff_step old_flat new_flat) all_keys
           \<lparr>added = [], removed = [], modified = []\<rparr>)"

section \<open>Rule lookup of the validator (config_validator.py)\<close>

text \<open>
  The rule set is a dictionary from rule path to rule, in insertion order. What a rule
  holds plays no part in the lookup, so the rule type is a parameter, and so is
  \<open>_validate_value\<close>, which runs regular expressions and caller-supplied predicates.
\<close>

type_synonym 'r rules = "(string \<times> 'r) list"

text \<open>The loop of \<open>_path_matches\<close> over \<open>zip(pattern_parts, path_parts)\<close>.\<close>

fun parts_match :: "(string \<times> string) list \<Rightarrow> bool" where
  "parts_match [] = True"
| "parts_match ((pattern_part, path_part) # rest) =
     (if pattern_part = ''*'' then parts_match rest
      else if pattern_part \<noteq> path_part then False
      else parts_match rest)"

definition path_matches :: "string \<Rightarrow> string \<Rightarrow> bool" where
  "path_matches pattern pth =
     (let pattern_parts = split_chr (CHR ''.'') pattern;
          path_parts = split_chr (CHR ''.'') pth
      in if length pattern_parts \<noteq> length path_parts then False
         else parts_match (zip pattern_parts path_parts))"

fun first_pattern_rule :: "'r rules \<Rightarrow> string \<Rightarrow> 'r option" where
  "first_pattern_rule [] pth = None"
| "first_pattern_rule ((rule_path, rule) # rest) pth =
     (if path_matches rule_path pth then Some rule else first_pattern_rule rest pth)"

definition find_matching_rule :: "'r rules \<Rightarrow> string \<Rightarrow> 'r option" where
  "find_matching_rule rules pth =
     (case map_of rules pth of
        Some rule \<Rightarrow> Some rule
      | None \<Rightarrow> first_pattern_rule rules pth)"

text \<open>\<open>s.rstrip(".")\<close>.\<close>

definition rstrip_dot :: "string \<Rightarrow> string" where
  "rstrip_dot s = rev (dropWhile (\<lambda>c. c = CHR ''.'') (rev s))"

text \<open>
  \<open>validate\<close> with its inner \<open>_validate_node(node, path_prefix)\<close>, which appends to
  the list \<open>errors\<close> of the enclosing call.
\<close>

fun validate_node ::
    "(string \<Rightarrow> pyval \<Rightarrow> 'r \<Rightarrow> 'e list) \<Rightarrow> 'r rules \<Rightarrow> ConfigNode \<Rightarrow> string \<Rightarrow> 'e list \<Rightarrow> 'e list"
  and validate_items ::
    "(string \<Rightarrow> pyval \<Rightarrow> 'r \<Rightarrow> 'e list) \<Rightarrow> 'r rules \<Rightarrow> (string \<times> ConfigNode) list \<Rightarrow> string
       \<Rightarrow> 'e list \<Rightarrow> 'e list" where
  "validate_node validate_value rules (ConfigNode p v cs d m) path_prefix errors =
     validate_items validate_value rules cs path_prefix
       (if v \<noteq> PNone
        then (let node_path = rstrip_dot path_prefix
              in (case find_matching_rule rules node_path of
                    Some rule \<Rightarrow> errors @ validate_value node_path v rule
                  | None \<Rightarrow> errors))
        else errors)"
| "validate_items validate_value rules [] path_prefix errors = errors"
| "validate_items validate_value rules ((name, child) # rest) path_prefix errors =
     (if \<not> deleted child
      then validate_items validate_value rules rest path_prefix
             (validate_node validate_value rules child
                (if path_prefix \<noteq> [] then path_prefix @ name @ ''.'' else name @ ''.'') errors)
      else validate_items validate_value rules rest path_prefix errors)"

definition validate ::
  "(string \<Rightarrow> pyval \<Rightarrow> 'r \<Rightarrow> 'e list) \<Rightarrow> 'r rules \<Rightarrow> ConfigNode \<Rightarrow> 'e list" where
  "validate validate_value rules config = validate_node validate_value rules config [] []"

text \<open>
  The lookup as the specification words it: a pattern matches a path when both have the
  same number of segments and every segment of the pattern is \<open>*\<close> or equals the
  segment of the path at its position; the rule is the one stored under the path itself,
  else the rule of the first matching pattern.
\<close>

definition spec_pattern_matches :: "string \<Rightarrow> string \<Rightarrow> bool" where
  "spec_pattern_matches pattern pth =
     (let ps = split_chr (CHR ''.'') pattern;
          qs = split_chr (CHR ''.'') pth
      in length ps = length qs \<and> (\<forall>i < length ps. ps ! i = ''*'' \<or> ps ! i = qs ! i))"

definition spec_rule_for :: "'r rules \<Rightarrow> string \<Rightarrow> 'r option" where
  "spec_rule_for rules pth =
     (case map_of rules pth of
        Some rule \<Rightarrow> Some rule
      | None \<Rightarrow>
          (case filter (\<lambda>(rule_path, rule). spec_pattern_matches rule_path pth) rules of
             [] \<Rightarrow> None
           | (rule_path, rule) # _ \<Rightarrow> Some rule))"

section \<open>The rollback manager (config_rollback.py)\<close>

text \<open>A timestamp is a reading of the clock, in microseconds.\<close>

record ConfigSnapshot =
  snapshot_id :: string
  timestamp :: int
  description :: "string option"
  config_hash :: string
  config_data :: pydict

record ConfigRollbackManager =
  max_snapshots :: int
  snapshots :: "ConfigSnapshot list"
  snapshot_files :: "string set"

text \<open>
  \<open>sorted(xs, key=lambda s: s.timestamp, reverse=True)\<close> and \<open>xs.sort\<close> with the same
  arguments: newest first, and the sort is stable, so snapshots with equal timestamps
  keep the order they had.
\<close>

definition sort_newest_first :: "ConfigSnapshot list \<Rightarrow> ConfigSnapshot list" where
  "sort_newest_first xs = sort_key (\<lambda>s. - timestamp s) xs"

text \<open>The slices \<open>xs[:k]\<close> and \<open>xs[k:]\<close>; a negative \<open>k\<close> counts from the end.\<close>

definition slice_to :: "'a list \<Rightarrow> int \<Rightarrow> 'a list" where
  "slice_to xs k = (if 0 \<le> k then take (nat k) xs else take (length xs - nat (- k)) xs)"

definition slice_from :: "'a list \<Rightarrow> int \<Rightarrow> 'a list" where
  "slice_from xs k = (if 0 \<le> k then drop (nat k) xs else drop (length xs - nat (- k)) xs)"

definition list_snapshots :: "ConfigRollbackManager \<Rightarrow> int option \<Rightarrow> ConfigSnapshot list" where
  "list_snapshots mgr limit =
     (let sorted_snapshots = sort_newest_first (snapshots mgr)
      in (case limit of
            None \<Rightarrow> sorted_snapshots
          | Some l \<Rightarrow> if l \<noteq> 0 then slice_to sorted_snapshots l else sorted_snapshots))"

definition prune_old_snapshots :: "ConfigRollbackManager \<Rightarrow> ConfigRollbackManager" where
  "prune_old_snapshots mgr =
     (if int (length (snapshots mgr)) \<le> max_snapshots mgr then mgr
      else (let sorted_snapshots = sort_newest_first (snapshots mgr);
                to_remove = slice_from sorted_snapshots (max_snapshots mgr)
            in mgr\<lparr>snapshots := slice_to sorted_snapshots (max_snapshots mgr),
                   snapshot_files := snapshot_files mgr - snapshot_id ` set to_remove\<rparr>))"

text \<open>
  \<open>create_snapshot(config, description)\<close>. The identifier, the clock reading and the
  digest come from outside (\<open>datetime.utcnow\<close>, \<open>hashlib\<close>) and are arguments here.
\<close>

record snapshot_request =
  req_id :: string
  req_now :: int
  req_hash :: string
  req_config :: ConfigNode
  req_description :: "string option"

definition make_snapshot :: "snapshot_request \<Rightarrow> ConfigSnapshot" where
  "make_snapshot r =
     \<lparr>snapshot_id = req_id r, timestamp = req_now r, description = req_description r,
      config_hash = req_hash r, config_data = to_dict (req_config r)\<rparr>"

definition create_snapshot :: "snapshot_request \<Rightarrow> ConfigRollbackManager \<Rightarrow> ConfigRollbackManager" where
  "create_snapshot r mgr =
     (let snapshot = make_snapshot r
      in prune_old_snapshots
           (mgr\<lparr>snapshots := snapshots mgr @ [snapshot],
                snapshot_files := insert (snapshot_id snapshot) (snapshot_files mgr)\<rparr>))"

section \<open>Restoring a backup (config_backup.py)\<close>

text \<open>
  The executor runs a command on the device and returns its result; it catches its own
  failures and reports them through the exit code. The device, with the files on it, is
  a state \<open>'d\<close> that every call may change.
\<close>

record CommandResult =
  stdout :: string
  exit_code :: int

record BackupSnapshot =
  backup_id :: string
  backup_name :: string
  backup_description :: string
  backup_format :: string

record RestoreResult =
  success :: bool
  message :: string
  result_snapshot :: "BackupSnapshot option"
  result_snapshot_id :: "string option"

text \<open>
  The collaborators of \<open>restore_from_snapshot\<close>: \<open>executor.execute\<close>, and the
  manager's own \<open>get_snapshot\<close> and \<open>create_snapshot\<close>, which read and write the
  device through the executor and catch every exception.
\<close>

record 'd backup_manager =
  execute :: "string \<Rightarrow> 'd \<Rightarrow> CommandResult \<times> 'd"
  get_snapshot :: "string \<Rightarrow> 'd \<Rightarrow> BackupSnapshot option \<times> 'd"
  create_backup_snapshot :: "string \<Rightarrow> string \<Rightarrow> 'd \<Rightarrow> BackupSnapshot \<times> 'd"
  backup_dir :: string

text \<open>
  What a call hands to \<open>await\<close>: the coroutine of an \<open>async def\<close>, or the plain
  object that a \<open>def\<close> returned. Awaiting a plain object raises \<open>TypeError\<close>.
\<close>

datatype 'a call_result = Coroutine 'a | Plain string 'a

definition type_error_text :: "string \<Rightarrow> string" where
  "type_error_text cls = ''object '' @ cls @ '' can'' @ [CHR 0x27] @ ''t be used in ''
     @ [CHR 0x27] @ ''await'' @ [CHR 0x27] @ '' expression''"

fun py_await :: "'a call_result \<Rightarrow> string + 'a" where
  "py_await (Coroutine v) = Inr v"
| "py_await (Plain cls v) = Inl (type_error_text cls)"

definition failure :: "string \<Rightarrow> RestoreResult" where
  "failure msg = \<lparr>success = False, message = msg, result_snapshot = None,
                  result_snapshot_id = None\<rparr>"

text \<open>\<open>self.executor.execute("discard"); self.executor.execute("exit")\<close>.\<close>

definition discard_and_exit :: "'d backup_manager \<Rightarrow> 'd \<Rightarrow> 'd" where
  "discard_and_exit mgr dev = snd (execute mgr ''exit'' (snd (execute mgr ''discard'' dev)))"

text \<open>The loop over the lines of the stored configuration: the line that failed, if any.\<close>

fun apply_lines :: "'d backup_manager \<Rightarrow> string list \<Rightarrow> 'd \<Rightarrow> string option \<times> 'd" where
  "apply_lines mgr [] dev = (None, dev)"
| "apply_lines mgr (l # ls) dev =
     (let line = strip l
      in if line \<noteq> [] \<and> take 1 line \<noteq> ''#''
         then (let (result, dev1) = execute mgr (''set '' @ line) dev
               in if exit_code result \<noteq> 0
                  then (Some line, discard_and_exit mgr dev1)
                  else apply_lines mgr ls dev1)
         else apply_lines mgr ls dev)"

definition apply_configuration ::
  "'d backup_manager \<Rightarrow> string \<Rightarrow> string \<Rightarrow> 'd \<Rightarrow> RestoreResult \<times> 'd" where
  "apply_configuration mgr sid config dev =
     (let (result, dev1) = execute mgr ''configure'' dev
      in if exit_code result \<noteq> 0
         then (failure ''Failed to enter configuration mode'', discard_and_exit mgr dev1)
         else (case apply_lines mgr (split_chr (CHR 0x0A) config) dev1 of
                 (Some line, dev2) \<Rightarrow> (failure (''Failed to apply command: '' @ line), dev2)
               | (None, dev2) \<Rightarrow>
                   (let (result, dev3) = execute mgr ''commit'' dev2
                    in if exit_code result \<noteq> 0
                       then (failure ''Failed to commit configuration'', discard_and_exit mgr dev3)
                       else (let dev4 = snd (execute mgr ''exit'' dev3);
                                 dev5 = snd (execute mgr ''save'' dev4)
                             in (\<lparr>success = True,
                                  message = ''Configuration restored successfully'',
                                  result_snapshot = None,
                                  result_snapshot_id = Some sid\<rparr>, dev5)))))"

text \<open>
  \<open>restore_from_snapshot(snapshot_id, dry_run)\<close>. \<open>create_snapshot\<close> is a plain
  \<open>def\<close>, and the restore awaits what it returns, inside the \<open>try\<close> whose handler
  returns the text of the exception as the message.
\<close>

definition restore_from_snapshot ::
  "'d backup_manager \<Rightarrow> string \<Rightarrow> bool \<Rightarrow> 'd \<Rightarrow> RestoreResult \<times> 'd" where
  "restore_from_snapshot mgr sid dry_run dev =
     (case get_snapshot mgr sid dev of
        (None, dev1) \<Rightarrow> (failure ''Snapshot not found'', dev1)
      | (Some snapshot, dev1) \<Rightarrow>
          if dry_run
          then (\<lparr>success = True, message = ''Dry run successful'',
                 result_snapshot = Some snapshot, result_snapshot_id = None\<rparr>, dev1)
          else (let (result, dev2) =
                      execute mgr (''cat '' @ backup_dir mgr @ ''/snapshots/'' @ sid @ ''.''
                                     @ backup_format snapshot) dev1
                in if stdout result = []
                   then (failure ''Failed to read snapshot content'', dev2)
                   else (let config = stdout result;
                             (created, dev3) =
                               create_backup_snapshot mgr (''pre-restore-'' @ sid)
                                 (''Automatic backup before restoring '' @ sid) dev2
                         in (case py_await (Plain ''ConfigSnapshot'' created) of
                               Inl e \<Rightarrow> (failure e, dev3)
                             | Inr _ \<Rightarrow> apply_configuration mgr sid config dev3))))"

text \<open>
  A device for running the restore: its state is the list of the commands it was
  given. Reading a stored snapshot prints one configuration line, and the device
  rejects every \<open>set\<close> command.
\<close>

definition log_execute :: "string \<Rightarrow> string list \<Rightarrow> CommandResult \<times> string list" where
  "log_execute command log =
     (\<lparr>stdout = (if take 4 command = ''cat '' then ''system host-name r1'' else []),
       exit_code = (if take 4 command = ''set '' then 1 else 0)\<rparr>,
      log @ [command])"

definition log_manager :: "string list backup_manager" where
  "log_manager =
     \<lparr>execute = log_execute,
      get_snapshot = (\<lambda>sid log.
         (Some \<lparr>backup_id = sid, backup_name = ''nightly'', backup_description = [],
                backup_format = ''vyos''\<rparr>, log)),
      create_backup_snapshot = (\<lambda>name descr log.
         (\<lparr>backup_id = ''new'', backup_name = name, backup_description = descr,
           backup_format = ''vyos''\<rparr>, log @ [''snapshot '' @ name])),
      backup_dir = ''/b''\<rparr>"

section \<open>Sequences of tree operations\<close>

text \<open>
  \<open>set_value\<close> and \<open>add_child\<close> are methods of a node; a caller reaches the node
  from the root by the names on the way, as \<open>get_child\<close> does. An operation on a node
  that does not exist is no operation.
\<close>

datatype tree_op = SetValue "string list" pyval | AddChild "string list" string

fun at_node :: "string list \<Rightarrow> (ConfigNode \<Rightarrow> ConfigNode) \<Rightarrow> ConfigNode \<Rightarrow> ConfigNode" where
  "at_node [] f n = f n"
| "at_node (k # ks) f n =
     (case map_of (children n) k of
        None \<Rightarrow> n
      | Some c \<Rightarrow> put_child n k (at_node ks f c))"

fun apply_op :: "tree_op \<Rightarrow> ConfigNode \<Rightarrow> ConfigNode" where
  "apply_op (SetValue p v) t = at_node p (\<lambda>n. set_value n v) t"
| "apply_op (AddChild p name) t = at_node p (\<lambda>n. fst (add_child n name)) t"

text \<open>No node of the tree has both a value and children.\<close>

fun exclusive :: "ConfigNode \<Rightarrow> bool"
  and exclusive_items :: "(string \<times> ConfigNode) list \<Rightarrow> bool" where
  "exclusive (ConfigNode p v cs d m) = (\<not> (v \<noteq> PNone \<and> cs \<noteq> []) \<and> exclusive_items cs)"
| "exclusive_items [] = True"
| "exclusive_items ((name, child) # rest) = (exclusive child \<and> exclusive_items rest)"

text \<open>Every \<open>add_child\<close> of the sequence is called on a node without a value.\<close>

fun adds_to_unvalued :: "tree_op list \<Rightarrow> ConfigNode \<Rightarrow> bool" where
  "adds_to_unvalued [] t = True"
| "adds_to_unvalued (SetValue p v # ops) t = adds_to_unvalued ops (apply_op (SetValue p v) t)"
| "adds_to_unvalued (AddChild p name # ops) t =
     ((case get_child t p of None \<Rightarrow> True | Some n \<Rightarrow> nvalue n = PNone)
      \<and> adds_to_unvalued ops (apply_op (AddChild p name) t))"

text \<open>
  The same tree with other tombstones: the node at position \<open>pos\<close> gets the flag
  \<open>flags pos\<close>.
\<close>

fun with_tombstones :: "(string list \<Rightarrow> bool) \<Rightarrow> string list \<Rightarrow> ConfigNode \<Rightarrow> ConfigNode"
  and with_tombstones_items ::
    "(string list \<Rightarrow> bool) \<Rightarrow> string list \<Rightarrow> (string \<times> ConfigNode) list
       \<Rightarrow> (string \<times> ConfigNode) list" where
  "with_tombstones flags pos (ConfigNode p v cs d m) =
     ConfigNode p v (with_tombstones_items flags pos cs) (flags pos) m"
| "with_tombstones_items flags pos [] = []"
| "with_tombstones_items flags pos ((name, child) # rest) =
     (name, with_tombstones flags (pos @ [name]) child) # with_tombstones_items flags pos rest"

text \<open>The subtree that \<open>from_dict\<close> builds at position \<open>p\<close> for one value of the dictionary.\<close>

fun build :: "string list \<Rightarrow> dictval \<Rightarrow> ConfigNode" where
  "build p (DScalar v) = set_value (new_node p) v"
| "build p (DDict d) = populate (new_node p) d"

text \<open>
  Two nodes that \<open>flatten\<close> cannot tell apart: the same value, and children that add
  the same entries to any result under any prefix.
\<close>

definition same_flat :: "ConfigNode \<Rightarrow> ConfigNode \<Rightarrow> bool" where
  "same_flat a b =
     (nvalue a = nvalue b \<and>
      (\<forall>prefix result. flatten_items (children a) prefix result
                         = flatten_items (children b) prefix result))"

text \<open>
  Insertion into a list sorted by key, after the elements whose key is not larger: what a
  stable sort does with an element appended to its input.
\<close>

fun insort_last_key :: "('a \<Rightarrow> 'k::linorder) \<Rightarrow> 'a \<Rightarrow> 'a list \<Rightarrow> 'a list" where
  "insort_last_key f x [] = [x]"
| "insort_last_key f x (y # ys) =
     (if f y \<le> f x then y # insort_last_key f x ys else x # y # ys)"

text \<open>
  A line with its quote characters replaced by the letter \<open>x\<close>, and the keywords of
  the grammar, which hold neither.
\<close>

definition unquote :: "char \<Rightarrow> char" where
  "unquote c = (if c = CHR 0x22 \<or> c = CHR 0x27 then CHR ''x'' else c)"

definition plain_keyword :: "string \<Rightarrow> bool" where
  "plain_keyword kw = (\<forall>k \<in> set kw. k \<noteq> CHR ''x'' \<and> k \<noteq> CHR 0x22 \<and> k \<noteq> CHR 0x27)"

text \<open>\<open>"\n".join(lines)\<close>.\<close>

fun join_lines :: "string list \<Rightarrow> string" where
  "join_lines [] = []"
| "join_lines [l] = l"
| "join_lines (l # ls) = l @ [CHR 0x0A] @ join_lines ls"

section \<open>Properties of the tree\<close>

lemma children_with_children [simp]: "children (with_children n cs) = cs"
  by (cases n) simp

lemma path_with_children [simp]: "path (with_children n cs) = path n"
  by (cases n) simp

lemma nvalue_with_children [simp]: "nvalue (with_children n cs) = nvalue n"
  by (cases n) simp

lemma deleted_with_children [simp]: "deleted (with_children n cs) = deleted n"
  by (cases n) simp

lemma with_children_twice [simp]: "with_children (with_children n cs) cs' = with_children n cs'"
  by (cases n) simp

subsection \<open>Round trip through dictionaries\<close>

lemma update_append_fresh:
  "k \<notin> fst ` set cs \<Longrightarrow> AList.update k c (cs @ [(k, c0)]) = cs @ [(k, c)]"
  by (induction cs) auto

lemma populate_fresh:
  "distinct (map fst d) \<Longrightarrow> fst ` set d \<inter> fst ` set (children n) = {} \<Longrightarrow>
   populate n d = with_children n (children n @ map (\<lambda>(k, v). (k, build (path n @ [k]) v)) d)"
proof (induction n d rule: populate.induct)
  case (1 node)
  then show ?case by (cases node) simp
next
  case (2 node key d rest)
  have fresh: "map_of (children node) key = None"
    using 2(4) by (force simp: map_of_eq_None_iff)
  have notin: "key \<notin> fst ` set (children node)" using 2(4) by auto
  show ?case using 2 fresh notin
    by (simp add: add_child_def put_child_def update_append_fresh Let_def)
next
  case (3 node key v rest)
  have fresh: "map_of (children node) key = None"
    using 3(3) by (force simp: map_of_eq_None_iff)
  have notin: "key \<notin> fst ` set (children node)" using 3(3) by auto
  show ?case using 3 fresh notin
    by (simp add: add_child_def put_child_def update_append_fresh Let_def)
qed

lemma wf_dict_distinct: "wf_dict d \<Longrightarrow> distinct (map fst d)"
  by (induction d) (simp, force)

lemma populate_new_node:
  "wf_dict d \<Longrightarrow> populate (new_node p) d =
     ConfigNode p PNone (map (\<lambda>(k, v). (k, build (p @ [k]) v)) d) False None"
  using populate_fresh [of d "new_node p"] by (simp add: wf_dict_distinct new_node_def)

lemma to_dict_items_Cons:
  "to_dict_items (x # rest) = to_dict_items [x] @ to_dict_items rest"
  by (cases x) simp

lemma to_dict_build:
  "wf_dict d \<longrightarrow> populated d \<longrightarrow>
     (\<forall>p. to_dict_items (map (\<lambda>(k, v). (k, build (p @ [k]) v)) d) = d)"
  "wf_dictval v \<longrightarrow> populated_val v \<longrightarrow>
     (\<forall>p k0. to_dict_items [(k0, build p v)] = [(k0, v)])"
proof (induction d and v rule: populated_populated_val.induct)
  case 1
  then show ?case by simp
next
  case (2 k v rest)
  show ?case
  proof (intro impI allI)
    fix p
    assume wf: "wf_dict ((k, v) # rest)" and pop: "populated ((k, v) # rest)"
    have a: "to_dict_items [(k, build (p @ [k]) v)] = [(k, v)]"
      using 2(1) wf pop by simp
    have b: "to_dict_items (map (\<lambda>(k, v). (k, build (p @ [k]) v)) rest) = rest"
      using 2(2) wf pop by simp
    show "to_dict_items (map (\<lambda>(k, v). (k, build (p @ [k]) v)) ((k, v) # rest)) = (k, v) # rest"
      using a b to_dict_items_Cons [of "(k, build (p @ [k]) v)"] by simp
  qed
next
  case (3 v)
  then show ?case by (simp add: set_value_def new_node_def)
next
  case (4 d)
  then show ?case by (simp add: populate_new_node)
qed

text \<open>
  Claim C3, as amended. For every dictionary \<open>m\<close> with distinct keys at every level,
  no \<open>None\<close> value and no empty nested dictionary, \<open>from_dict(m).to_dict()\<close> is \<open>m\<close>,
  with its keys in the same order.
\<close>

theorem from_dict_to_dict:
  assumes "wf_dict m" and "populated m"
  shows "to_dict (from_dict m) = m"
proof -
  have "to_dict_items (map (\<lambda>(k, v). (k, build ([] @ [k]) v)) m) = m"
    using to_dict_build(1) [of m] assms by blast
  then show ?thesis using assms(1) by (simp add: from_dict_def populate_new_node)
qed

theorem from_dict_to_dict_witness:
  "wf_dict [(''system'', DDict [(''host-name'', DScalar (PStr ''r1''))])] \<and>
   populated [(''system'', DDict [(''host-name'', DScalar (PStr ''r1''))])] \<and>
   to_dict (from_dict [(''system'', DDict [(''host-name'', DScalar (PStr ''r1''))])])
     = [(''system'', DDict [(''host-name'', DScalar (PStr ''r1''))])]"
proof -
  have a: "wf_dict [(''system'', DDict [(''host-name'', DScalar (PStr ''r1''))])]" by simp
  have b: "populated [(''system'', DDict [(''host-name'', DScalar (PStr ''r1''))])]" by simp
  show ?thesis using a b from_dict_to_dict [OF a b] by simp
qed

text \<open>
  The claim as stated fails on a dictionary with an empty nested dictionary:
  \<open>to_dict\<close> leaves out a child that has neither a value nor children.
\<close>

theorem from_dict_to_dict_counterexample:
  "wf_dict [(''a'', DDict [])] \<and> to_dict (from_dict [(''a'', DDict [])]) \<noteq> [(''a'', DDict [])]"
  by code_simp

subsection \<open>Value and children\<close>

lemma exclusive_iff:
  "exclusive n = (\<not> (nvalue n \<noteq> PNone \<and> children n \<noteq> []) \<and> exclusive_items (children n))"
  by (cases n) simp

lemma exclusive_items_update:
  "exclusive_items cs \<Longrightarrow> exclusive c \<Longrightarrow> exclusive_items (AList.update k c cs)"
  by (induction cs) auto

lemma exclusive_items_snoc:
  "exclusive_items cs \<Longrightarrow> exclusive c \<Longrightarrow> exclusive_items (cs @ [(k, c)])"
  by (induction cs) auto

lemma exclusive_items_lookup:
  "exclusive_items cs \<Longrightarrow> map_of cs k = Some c \<Longrightarrow> exclusive c"
  by (induction cs) (auto split: if_splits)

lemma update_not_Nil: "AList.update k c cs \<noteq> []"
  by (cases cs) auto

lemma exclusive_put_child:
  "exclusive n \<Longrightarrow> exclusive c \<Longrightarrow> map_of (children n) k = Some c0 \<Longrightarrow> exclusive (put_child n k c)"
  by (auto simp: exclusive_iff put_child_def exclusive_items_update update_not_Nil)

lemma exclusive_at_node:
  "exclusive n \<Longrightarrow> (\<And>m. get_child n p = Some m \<Longrightarrow> exclusive m \<Longrightarrow> exclusive (f m))
     \<Longrightarrow> exclusive (at_node p f n)"
proof (induction p arbitrary: n)
  case Nil
  then show ?case by simp
next
  case (Cons k ks)
  show ?case
  proof (cases "map_of (children n) k")
    case None
    then show ?thesis using Cons.prems by simp
  next
    case (Some c)
    have ec: "exclusive c"
      using Cons.prems(1) Some exclusive_items_lookup by (auto simp: exclusive_iff)
    have "exclusive (at_node ks f c)"
    proof (rule Cons.IH [OF ec])
      fix m assume "get_child c ks = Some m" "exclusive m"
      then show "exclusive (f m)" using Cons.prems(2) [of m] Some by simp
    qed
    then show ?thesis using Some Cons.prems(1) by (simp add: exclusive_put_child)
  qed
qed

lemma exclusive_set_value: "exclusive (set_value m v)"
  by (simp add: set_value_def)

lemma exclusive_new_node: "exclusive (new_node p)"
  by (simp add: new_node_def)

lemma exclusive_add_child:
  "exclusive m \<Longrightarrow> nvalue m = PNone \<Longrightarrow> exclusive (fst (add_child m name))"
  by (auto simp: add_child_def exclusive_iff Let_def split: option.splits
           intro!: exclusive_items_snoc exclusive_new_node)

lemma exclusive_apply_op:
  "exclusive t \<Longrightarrow> adds_to_unvalued [op] t \<Longrightarrow> exclusive (apply_op op t)"
proof (cases op)
  case (SetValue p v)
  assume "exclusive t"
  then show ?thesis using SetValue by (simp add: exclusive_at_node exclusive_set_value)
next
  case (AddChild p name)
  assume e: "exclusive t" and g: "adds_to_unvalued [op] t"
  show ?thesis unfolding AddChild apply_op.simps
  proof (rule exclusive_at_node [OF e])
    fix m assume "get_child t p = Some m" "exclusive m"
    then show "exclusive (fst (add_child m name))"
      using g AddChild by (simp add: exclusive_add_child)
  qed
qed

lemma exclusive_fold:
  "exclusive t \<Longrightarrow> adds_to_unvalued ops t \<Longrightarrow> exclusive (fold apply_op ops t)"
proof (induction ops arbitrary: t)
  case Nil
  then show ?case by simp
next
  case (Cons op ops)
  have one: "adds_to_unvalued [op] t" using Cons.prems(2) by (cases op) auto
  have rest: "adds_to_unvalued ops (apply_op op t)" using Cons.prems(2) by (cases op) auto
  show ?case using Cons.IH [OF exclusive_apply_op [OF Cons.prems(1) one] rest] by simp
qed

text \<open>
  Claim C2, as amended. \<open>set_value\<close> clears the children of its node and \<open>add_child\<close>
  leaves the value of its node as it is. After every sequence of \<open>set_value\<close> and
  \<open>add_child\<close> operations, on a tree where no node has both a value and children, in
  which each \<open>add_child\<close> is called on a node without a value, no node has both a value
  and children.
\<close>

theorem exclusivity_guarded:
  assumes "exclusive t" and "adds_to_unvalued ops t"
  shows "exclusive (fold apply_op ops t)
         \<and> children (set_value n v) = []
         \<and> nvalue (fst (add_child n name)) = nvalue n"
  using assms exclusive_fold
  by (auto simp: set_value_def add_child_def Let_def split: option.splits)

theorem exclusivity_guarded_witness:
  "exclusive (new_node []) \<and>
   adds_to_unvalued [AddChild [] ''a'', SetValue [''a''] (PStr ''x'')] (new_node []) \<and>
   exclusive (fold apply_op [AddChild [] ''a'', SetValue [''a''] (PStr ''x'')] (new_node []))"
proof -
  have a: "exclusive (new_node [])" by (simp add: new_node_def)
  have b: "adds_to_unvalued [AddChild [] ''a'', SetValue [''a''] (PStr ''x'')] (new_node [])"
    by (simp add: new_node_def add_child_def)
  show ?thesis using a b exclusivity_guarded [OF a b] by simp
qed

text \<open>
  The claim as stated fails: \<open>add_child\<close> on a node with a value keeps the value, and
  the node then has both.
\<close>

theorem exclusivity_counterexample:
  "exclusive (new_node []) \<and>
   \<not> exclusive (fold apply_op
        [AddChild [] ''a'', SetValue [''a''] (PStr ''x''), AddChild [''a''] ''b''] (new_node []))"
  by code_simp

subsection \<open>The diff is symmetric\<close>


lemma py_eq_sym: "py_eq a b = py_eq b a"
  by (cases a; cases b) (auto split: option.splits)

lemma added_fold:
  "map_of (added (fold (diff_step old new) ks d)) k =
     (if k \<in> set ks \<and> dict_get old k = PNone \<and> dict_get new k \<noteq> PNone
      then Some (dict_get new k) else map_of (added d) k)"
  by (induction ks arbitrary: d) (auto simp: diff_step_def Let_def update_conv')

lemma removed_fold:
  "map_of (removed (fold (diff_step old new) ks d)) k =
     (if k \<in> set ks \<and> dict_get old k \<noteq> PNone \<and> dict_get new k = PNone
      then Some (dict_get old k) else map_of (removed d) k)"
  by (induction ks arbitrary: d) (auto simp: diff_step_def Let_def update_conv')

lemma modified_fold:
  "map_of (modified (fold (diff_step old new) ks d)) k =
     (if k \<in> set ks \<and> dict_get old k \<noteq> PNone \<and> dict_get new k \<noteq> PNone
           \<and> \<not> py_eq (dict_get old k) (dict_get new k)
      then Some (dict_get old k, dict_get new k) else map_of (modified d) k)"
  by (induction ks arbitrary: d) (auto simp: diff_step_def Let_def update_conv')

text \<open>
  Claim C5. For all trees \<open>a\<close> and \<open>b\<close>, as dictionaries: what
  \<open>calculate_diff(a, b)\<close> reports as added is what \<open>calculate_diff(b, a)\<close> reports as
  removed, and the other way round; and the modified entries of \<open>calculate_diff(b, a)\<close>
  are those of \<open>calculate_diff(a, b)\<close>, at the same paths, with old and new value swapped.
\<close>

theorem diff_symmetry:
  "map_of (added (calculate_diff a b)) = map_of (removed (calculate_diff b a))
   \<and> map_of (removed (calculate_diff a b)) = map_of (added (calculate_diff b a))
   \<and> map_of (modified (calculate_diff b a))
       = map_option prod.swap \<circ> map_of (modified (calculate_diff a b))"
  by (auto simp: calculate_diff_def Let_def added_fold removed_fold modified_fold fun_eq_iff
        py_eq_sym)


subsection \<open>Flattening and tombstones\<close>


lemma flatten_inner_children:
  "flatten_inner n prefix result = flatten_items (children n) prefix result"
  by (cases n) simp

lemma nvalue_with_tombstones [simp]: "nvalue (with_tombstones flags pos n) = nvalue n"
  by (cases n) simp

lemma children_with_tombstones [simp]:
  "children (with_tombstones flags pos n) = with_tombstones_items flags pos (children n)"
  by (cases n) simp

lemma with_tombstones_items_Nil [simp]:
  "(with_tombstones_items flags pos cs = []) = (cs = [])"
  by (cases cs) auto

lemma flatten_items_tombstones:
  "flatten_items (with_tombstones_items flags pos cs) prefix result
     = flatten_items cs prefix result"
proof (induction cs arbitrary: flags pos prefix result rule: measure_induct_rule [where f = "size_list (size_prod (\<lambda>x. 0) size)"])
  case (less cs)
  show ?case
  proof (cases cs)
    case Nil
    then show ?thesis by simp
  next
    case (Cons x rest)
    obtain name child where x: "x = (name, child)" by (cases x)
    have r: "size_list (size_prod (\<lambda>x. 0) size) rest < size_list (size_prod (\<lambda>x. 0) size) cs"
      using Cons by simp
    have c: "size_list (size_prod (\<lambda>x. 0) size) (children child) < size_list (size_prod (\<lambda>x. 0) size) cs"
      using Cons x by (cases child) simp
    show ?thesis
      using less [OF r] less [OF c] Cons x
      by (simp add: Let_def flatten_inner_children)
  qed
qed

lemma flatten_with_tombstones: "flatten (with_tombstones flags pos t) = flatten t"
  by (simp add: flatten_def flatten_inner_children flatten_items_tombstones)



lemma flatten_items_Cons:
  "flatten_items (x # rest) prefix result
     = flatten_items rest prefix (flatten_items [x] prefix result)"
  by (cases x) (simp add: Let_def)

lemma flatten_items_append:
  "flatten_items (xs @ ys) prefix result
     = flatten_items ys prefix (flatten_items xs prefix result)"
proof (induction xs arbitrary: result)
  case Nil
  then show ?case by simp
next
  case (Cons x xs)
  show ?case
    using Cons [of "flatten_items [x] prefix result"]
          flatten_items_Cons [of x "xs @ ys"] flatten_items_Cons [of x xs]
    by simp
qed

lemma same_flat_refl: "same_flat a a"
  by (simp add: same_flat_def)

lemma same_flat_trans: "same_flat a b \<Longrightarrow> same_flat b c \<Longrightarrow> same_flat a c"
  by (simp add: same_flat_def)

lemma same_flat_single:
  "same_flat a b \<Longrightarrow> flatten_items [(k, a)] prefix result = flatten_items [(k, b)] prefix result"
proof -
  assume s: "same_flat a b"
  have v: "nvalue a = nvalue b" using s by (simp add: same_flat_def)
  have c: "\<And>p r. flatten_items (children a) p r = flatten_items (children b) p r"
    using s by (simp add: same_flat_def)
  have e1: "children a = [] \<Longrightarrow> flatten_items (children b) p r = r" for p r
    using c [of p r] by simp
  have e2: "children b = [] \<Longrightarrow> flatten_items (children a) p r = r" for p r
    using c [of p r] by simp
  show ?thesis
    using v c e1 e2 by (simp add: Let_def flatten_inner_children)
qed

lemma same_flat_update:
  "same_flat c c' \<Longrightarrow> map_of cs k = Some c \<Longrightarrow>
   flatten_items (AList.update k c' cs) prefix result = flatten_items cs prefix result"
proof (induction cs arbitrary: result)
  case Nil
  then show ?case by simp
next
  case (Cons x cs)
  obtain k0 c0 where x: "x = (k0, c0)" by (cases x)
  show ?case
  proof (cases "k0 = k")
    case True
    then have "c0 = c" using Cons.prems(2) x by simp
    then show ?thesis
      using True x same_flat_single [OF Cons.prems(1), of k prefix result]
            flatten_items_Cons [of "(k, c')" cs] flatten_items_Cons [of "(k, c)" cs]
      by simp
  next
    case False
    then have m: "map_of cs k = Some c" using Cons.prems(2) x by simp
    show ?thesis
      using False x Cons.IH [OF Cons.prems(1) m]
            flatten_items_Cons [of "(k0, c0)" "AList.update k c' cs"]
            flatten_items_Cons [of "(k0, c0)" cs]
      by simp
  qed
qed

lemma same_flat_put_child:
  "same_flat c c' \<Longrightarrow> map_of (children n) k = Some c \<Longrightarrow> same_flat n (put_child n k c')"
  by (simp add: same_flat_def put_child_def same_flat_update [unfolded same_flat_def])

lemma same_flat_add_child: "same_flat n (fst (add_child n k))"
  by (simp add: same_flat_def add_child_def Let_def flatten_items_append new_node_def
        split: option.splits)

lemma add_child_lookup:
  "add_child n k = (n1, c) \<Longrightarrow> map_of (children n1) k = Some c"
  by (auto simp: add_child_def Let_def map_add_def split: option.splits)

lemma same_flat_navigate:
  "(\<And>m. same_flat m (f m)) \<Longrightarrow> same_flat n (navigate ps f n)"
proof (induction ps arbitrary: n)
  case Nil
  then show ?case by simp
next
  case (Cons p ps)
  obtain n1 c where ac: "add_child n p = (n1, c)" by (cases "add_child n p")
  have a: "same_flat n n1" using same_flat_add_child [of n p] ac by simp
  have b: "same_flat c (navigate ps f c)" using Cons by simp
  have "same_flat n1 (put_child n1 p (navigate ps f c))"
    using same_flat_put_child [OF b add_child_lookup [OF ac]] .
  then show ?case using a ac same_flat_trans by simp
qed

lemma same_flat_with_deleted: "same_flat c (with_deleted c b)"
  by (cases c) (simp add: same_flat_def)

lemma same_flat_delete:
  "same_flat m (apply_final \<lparr>command_type = ''delete'', cpath = p, cvalue = v, original = orig\<rparr> m)"
  by (auto simp: apply_final_def Let_def same_flat_refl
        intro: same_flat_put_child same_flat_with_deleted split: option.splits)

lemma flatten_delete:
  "flatten (apply_command \<lparr>command_type = ''delete'', cpath = p, cvalue = v, original = orig\<rparr> t)
     = flatten t"
proof -
  let ?c = "\<lparr>command_type = ''delete'', cpath = p, cvalue = v, original = orig\<rparr>"
  have "same_flat t (navigate (butlast p) (apply_final ?c) t)"
    by (rule same_flat_navigate) (rule same_flat_delete)
  then show ?thesis
    by (simp add: flatten_def flatten_inner_children apply_command_def same_flat_def)
qed

lemma calculate_diff_flatten:
  "flatten a = flatten a' \<Longrightarrow> flatten b = flatten b' \<Longrightarrow> calculate_diff a b = calculate_diff a' b'"
  by (simp add: calculate_diff_def)

text \<open>
  Claim C9. \<open>flatten\<close> does not read the tombstones: a tree flattens to the same
  dictionary under every assignment of \<open>deleted\<close> flags to its nodes. A \<open>delete\<close>
  command, with any path, leaves \<open>flatten\<close> of the tree as it was, and with it every
  \<open>calculate_diff\<close> the tree takes part in, on either side; \<open>to_dict\<close> does change,
  as deleting \<open>a\<close> from the tree of \<open>{a: x}\<close> shows.
\<close>

theorem flatten_ignores_tombstones:
  "flatten (with_tombstones flags pos t) = flatten t
   \<and> flatten (apply_command
        \<lparr>command_type = ''delete'', cpath = p, cvalue = v, original = orig\<rparr> t) = flatten t
   \<and> calculate_diff (apply_command
        \<lparr>command_type = ''delete'', cpath = p, cvalue = v, original = orig\<rparr> t) u
       = calculate_diff t u
   \<and> calculate_diff u (apply_command
        \<lparr>command_type = ''delete'', cpath = p, cvalue = v, original = orig\<rparr> t)
       = calculate_diff u t
   \<and> to_dict (apply_command
        \<lparr>command_type = ''delete'', cpath = [''a''], cvalue = None, original = ''delete a''\<rparr>
        (from_dict [(''a'', DScalar (PStr ''x''))]))
       \<noteq> to_dict (from_dict [(''a'', DScalar (PStr ''x''))])"
proof -
  have e: "to_dict (apply_command
        \<lparr>command_type = ''delete'', cpath = [''a''], cvalue = None, original = ''delete a''\<rparr>
        (from_dict [(''a'', DScalar (PStr ''x''))]))
       \<noteq> to_dict (from_dict [(''a'', DScalar (PStr ''x''))])"
    by code_simp
  show ?thesis
    using e flatten_with_tombstones flatten_delete calculate_diff_flatten [OF flatten_delete refl]
      calculate_diff_flatten [OF refl flatten_delete]
    by simp
qed

section \<open>Properties of the rollback manager\<close>


lemma insort_key_last_commute:
  "insort_key f a (insort_last_key f x ys) = insort_last_key f x (insort_key f a ys)"
  by (induction ys) auto

lemma sort_key_snoc: "sort_key f (xs @ [x]) = insort_last_key f x (sort_key f xs)"
  by (induction xs) (simp_all add: insort_key_last_commute)

lemma take_insort_last_take:
  "take m (insort_last_key f x (take m ys)) = take m (insort_last_key f x ys)"
proof (induction ys arbitrary: m)
  case Nil
  then show ?case by simp
next
  case (Cons y ys)
  show ?case
  proof (cases m)
    case 0
    then show ?thesis by simp
  next
    case (Suc k)
    have "take k (y # take k ys) = take k (y # ys)"
      by (cases k) simp_all
    then show ?thesis using Suc Cons.IH [of k] by simp
  qed
qed

lemma length_insort_last [simp]: "length (insort_last_key f x ys) = Suc (length ys)"
  by (induction ys) auto

lemma sort_take_sorted:
  "sort_key f (take m (sort_key f xs)) = take m (sort_key f xs)"
proof -
  have "sorted (map f (take m (sort_key f xs)))"
    using sorted_wrt_take [of "(\<le>)" "map f (sort_key f xs)" m] by (simp add: take_map)
  then show ?thesis by (rule sort_key_id_if_sorted)
qed

lemma sort_newest_snoc:
  "sort_newest_first (xs @ [x])
     = insort_last_key (\<lambda>s. - timestamp s) x (sort_newest_first xs)"
  by (simp add: sort_newest_first_def sort_key_snoc)

lemma max_snapshots_create [simp]:
  "max_snapshots (create_snapshot r mgr) = max_snapshots mgr"
  by (simp add: create_snapshot_def prune_old_snapshots_def Let_def)

lemma snapshots_create:
  "0 \<le> max_snapshots mgr \<Longrightarrow>
   snapshots (create_snapshot r mgr) =
     (if length (snapshots mgr) + 1 \<le> nat (max_snapshots mgr)
      then snapshots mgr @ [make_snapshot r]
      else take (nat (max_snapshots mgr)) (sort_newest_first (snapshots mgr @ [make_snapshot r])))"
  by (auto simp: create_snapshot_def prune_old_snapshots_def Let_def slice_to_def)

lemma create_step:
  assumes m: "0 \<le> max_snapshots mgr"
    and inv: "sort_newest_first (snapshots mgr)
                = take (nat (max_snapshots mgr)) (sort_newest_first all)"
  shows "sort_newest_first (snapshots (create_snapshot r mgr))
           = take (nat (max_snapshots mgr)) (sort_newest_first (all @ [make_snapshot r]))"
proof (cases "length (snapshots mgr) + 1 \<le> nat (max_snapshots mgr)")
  case True
  have "length (sort_newest_first (snapshots mgr)) = length (snapshots mgr)"
    by (simp add: sort_newest_first_def)
  then have "length (take (nat (max_snapshots mgr)) (sort_newest_first all)) < nat (max_snapshots mgr)"
    using inv True by simp
  then have short: "length (sort_newest_first all) < nat (max_snapshots mgr)"
    by simp
  then have "take (nat (max_snapshots mgr)) (sort_newest_first all) = sort_newest_first all"
    by simp
  then show ?thesis
    using True m inv short by (simp add: snapshots_create sort_newest_snoc)
next
  case False
  have "sort_newest_first (snapshots (create_snapshot r mgr))
          = take (nat (max_snapshots mgr)) (sort_newest_first (snapshots mgr @ [make_snapshot r]))"
    using False m by (simp add: snapshots_create sort_newest_first_def sort_take_sorted)
  then show ?thesis
    using inv by (simp add: sort_newest_snoc take_insort_last_take)
qed

lemma create_first:
  assumes m: "0 \<le> max_snapshots mgr"
  shows "sort_newest_first (snapshots (create_snapshot r mgr))
           = take (nat (max_snapshots mgr))
               (sort_newest_first (snapshots mgr @ [make_snapshot r]))"
proof (cases "length (snapshots mgr) + 1 \<le> nat (max_snapshots mgr)")
  case True
  then have "length (sort_newest_first (snapshots mgr @ [make_snapshot r])) \<le> nat (max_snapshots mgr)"
    by (simp add: sort_newest_first_def)
  then show ?thesis using True m by (simp add: snapshots_create)
next
  case False
  then show ?thesis
    using m by (simp add: snapshots_create sort_newest_first_def sort_take_sorted)
qed

lemma create_fold:
  assumes m: "0 \<le> max_snapshots mgr"
    and inv: "sort_newest_first (snapshots mgr)
                = take (nat (max_snapshots mgr)) (sort_newest_first all)"
  shows "max_snapshots (fold create_snapshot reqs mgr) = max_snapshots mgr \<and>
         sort_newest_first (snapshots (fold create_snapshot reqs mgr))
           = take (nat (max_snapshots mgr)) (sort_newest_first (all @ map make_snapshot reqs))"
  using assms
proof (induction reqs arbitrary: mgr all)
  case Nil
  then show ?case by simp
next
  case (Cons r reqs)
  have m': "0 \<le> max_snapshots (create_snapshot r mgr)" using Cons.prems(1) by simp
  have inv': "sort_newest_first (snapshots (create_snapshot r mgr))
                = take (nat (max_snapshots (create_snapshot r mgr)))
                    (sort_newest_first (all @ [make_snapshot r]))"
    using create_step [OF Cons.prems] by simp
  show ?case using Cons.IH [OF m' inv'] by simp
qed

text \<open>
  Claim C6. For a manager with a retention limit \<open>max_snapshots\<close> that is not
  negative: after any sequence of \<open>create_snapshot\<close> calls (at least one call, or a
  manager that started within its limit), \<open>list_snapshots()\<close> returns at most
  \<open>max_snapshots\<close> snapshots, and they are the first \<open>max_snapshots\<close> of all the
  snapshots the manager ever held, ordered newest first.
\<close>

theorem pruning_bound:
  assumes "0 \<le> max_snapshots mgr"
    and "reqs \<noteq> [] \<or> int (length (snapshots mgr)) \<le> max_snapshots mgr"
  shows "int (length (list_snapshots (fold create_snapshot reqs mgr) None)) \<le> max_snapshots mgr
         \<and> list_snapshots (fold create_snapshot reqs mgr) None
             = take (nat (max_snapshots mgr))
                 (sort_newest_first (snapshots mgr @ map make_snapshot reqs))"
proof -
  have eq: "sort_newest_first (snapshots (fold create_snapshot reqs mgr))
             = take (nat (max_snapshots mgr))
                 (sort_newest_first (snapshots mgr @ map make_snapshot reqs))"
  proof (cases reqs)
    case Nil
    then have "length (sort_newest_first (snapshots mgr)) \<le> nat (max_snapshots mgr)"
      using assms by (simp add: sort_newest_first_def)
    then show ?thesis using Nil by simp
  next
    case (Cons r rs)
    have m': "0 \<le> max_snapshots (create_snapshot r mgr)" using assms(1) by simp
    have inv': "sort_newest_first (snapshots (create_snapshot r mgr))
                = take (nat (max_snapshots (create_snapshot r mgr)))
                    (sort_newest_first (snapshots mgr @ [make_snapshot r]))"
      using create_first [OF assms(1)] by simp
    show ?thesis using create_fold [OF m' inv', of rs] Cons by simp
  qed
  have "length (take (nat (max_snapshots mgr))
                 (sort_newest_first (snapshots mgr @ map make_snapshot reqs)))
          \<le> nat (max_snapshots mgr)"
    by simp
  then show ?thesis using eq assms(1) by (simp add: list_snapshots_def)
qed


theorem pruning_bound_witness:
  "(0::int) \<le> 2 \<and>
   map timestamp (list_snapshots
     (fold create_snapshot
        [\<lparr>req_id = ''s1'', req_now = 10, req_hash = ''h'', req_config = new_node [],
          req_description = None\<rparr>,
         \<lparr>req_id = ''s2'', req_now = 30, req_hash = ''h'', req_config = new_node [],
          req_description = None\<rparr>,
         \<lparr>req_id = ''s3'', req_now = 20, req_hash = ''h'', req_config = new_node [],
          req_description = None\<rparr>]
        \<lparr>max_snapshots = 2, snapshots = [], snapshot_files = {}\<rparr>) None) = [30, 20]"
  using pruning_bound [of "\<lparr>max_snapshots = 2, snapshots = [], snapshot_files = {}\<rparr>"
        "[\<lparr>req_id = ''s1'', req_now = 10, req_hash = ''h'', req_config = new_node [],
          req_description = None\<rparr>,
         \<lparr>req_id = ''s2'', req_now = 30, req_hash = ''h'', req_config = new_node [],
          req_description = None\<rparr>,
         \<lparr>req_id = ''s3'', req_now = 20, req_hash = ''h'', req_config = new_node [],
          req_description = None\<rparr>]"]
  by (simp add: sort_newest_first_def make_snapshot_def)

text \<open>
  Claim C10. \<open>list_snapshots(limit=0)\<close> returns what \<open>list_snapshots()\<close> returns:
  every snapshot of the manager, newest first, not the empty list. For every positive
  limit \<open>n\<close> it returns the first \<open>n\<close> of that list.
\<close>

theorem list_snapshots_limit:
  "list_snapshots mgr (Some 0) = list_snapshots mgr None
   \<and> length (list_snapshots mgr (Some 0)) = length (snapshots mgr)
   \<and> set (list_snapshots mgr (Some 0)) = set (snapshots mgr)
   \<and> sorted_wrt (\<lambda>a b. timestamp b \<le> timestamp a) (list_snapshots mgr None)
   \<and> (0 < n \<longrightarrow> list_snapshots mgr (Some n) = take (nat n) (list_snapshots mgr None))"
proof -
  have "sorted (map (\<lambda>s. - timestamp s) (sort_newest_first (snapshots mgr)))"
    by (simp add: sort_newest_first_def)
  then have "sorted_wrt (\<lambda>a b. timestamp b \<le> timestamp a) (sort_newest_first (snapshots mgr))"
    by (simp add: sorted_map)
  then show ?thesis
    by (simp add: list_snapshots_def slice_to_def sort_newest_first_def)
qed

theorem list_snapshots_limit_witness:
  "(0::int) < 1 \<and>
   map timestamp (list_snapshots
     \<lparr>max_snapshots = 10,
      snapshots = [\<lparr>snapshot_id = ''s1'', timestamp = 10, description = None,
                    config_hash = ''h'', config_data = []\<rparr>,
                   \<lparr>snapshot_id = ''s2'', timestamp = 30, description = None,
                    config_hash = ''h'', config_data = []\<rparr>],
      snapshot_files = {}\<rparr> (Some 1)) = [30]
   \<and> map timestamp (list_snapshots
     \<lparr>max_snapshots = 10,
      snapshots = [\<lparr>snapshot_id = ''s1'', timestamp = 10, description = None,
                    config_hash = ''h'', config_data = []\<rparr>,
                   \<lparr>snapshot_id = ''s2'', timestamp = 30, description = None,
                    config_hash = ''h'', config_data = []\<rparr>],
      snapshot_files = {}\<rparr> (Some 0)) = [30, 10]"
  using list_snapshots_limit [of
     "\<lparr>max_snapshots = 10,
      snapshots = [\<lparr>snapshot_id = ''s1'', timestamp = 10, description = None,
                    config_hash = ''h'', config_data = []\<rparr>,
                   \<lparr>snapshot_id = ''s2'', timestamp = 30, description = None,
                    config_hash = ''h'', config_data = []\<rparr>],
      snapshot_files = {}\<rparr>" 1]
  by (simp add: list_snapshots_def sort_newest_first_def)

section \<open>Properties of the rule lookup\<close>


lemma parts_match_nth:
  "length ps = length qs \<Longrightarrow>
   parts_match (zip ps qs) = (\<forall>i < length ps. ps ! i = ''*'' \<or> ps ! i = qs ! i)"
proof (induction ps qs rule: list_induct2)
  case Nil
  then show ?case by simp
next
  case (Cons x xs y ys)
  have "(\<forall>i < Suc (length xs). (x # xs) ! i = ''*'' \<or> (x # xs) ! i = (y # ys) ! i)
          = ((x = ''*'' \<or> x = y) \<and> (\<forall>i < length xs. xs ! i = ''*'' \<or> xs ! i = ys ! i))"
    by (auto simp: less_Suc_eq_0_disj)
  then show ?case using Cons by auto
qed

lemma path_matches_spec: "path_matches pattern pth = spec_pattern_matches pattern pth"
  by (auto simp: path_matches_def spec_pattern_matches_def Let_def parts_match_nth)

lemma first_pattern_rule_filter:
  "first_pattern_rule rules pth =
     (case filter (\<lambda>(rule_path, rule). spec_pattern_matches rule_path pth) rules of
        [] \<Rightarrow> None
      | (rule_path, rule) # _ \<Rightarrow> Some rule)"
  by (induction rules) (auto simp: path_matches_spec)

lemma find_matching_rule_eq: "find_matching_rule rules pth = spec_rule_for rules pth"
  by (simp add: find_matching_rule_def spec_rule_for_def first_pattern_rule_filter
        cong: option.case_cong)

text \<open>
  Claim C7. For every dotted path, the rule that \<open>_find_matching_rule\<close> returns is
  the rule stored under the path itself when there is one; otherwise the first rule, in
  the insertion order of the rule set, whose pattern has as many segments as the path and
  whose segments are each \<open>*\<close> or equal to the segment of the path at that position.
  \<open>validate\<close> applies that rule to a valued node, and adds no error for it when no rule
  matches.
\<close>

theorem rule_lookup:
  "find_matching_rule rules pth = spec_rule_for rules pth
   \<and> (v \<noteq> PNone \<longrightarrow>
        validate_node validate_value rules (ConfigNode p v [] d m) path_prefix errors =
          (case spec_rule_for rules (rstrip_dot path_prefix) of
             Some rule \<Rightarrow> errors @ validate_value (rstrip_dot path_prefix) v rule
           | None \<Rightarrow> errors))"
  by (simp add: find_matching_rule_eq Let_def)


theorem rule_lookup_witness:
  "PStr ''9000'' \<noteq> PNone
   \<and> find_matching_rule
        [(''interface.*.address'', 1::nat), (''interface.*.mtu'', 2),
         (''interface.eth0.mtu'', 3), (''*.*.mtu'', 4)] ''interface.eth0.mtu'' = Some 3
   \<and> spec_rule_for
        [(''interface.*.address'', 1::nat), (''interface.*.mtu'', 2),
         (''interface.eth0.mtu'', 3), (''*.*.mtu'', 4)] ''interface.eth1.mtu'' = Some 2
   \<and> validate_node (\<lambda>pth v rule. [(pth, rule)])
        [(''interface.*.address'', 1::nat), (''interface.*.mtu'', 2),
         (''interface.eth0.mtu'', 3), (''*.*.mtu'', 4)]
        (ConfigNode [''system'', ''mtu''] (PStr ''9000'') [] False None) ''system.mtu.'' [] = []"
  using rule_lookup [of "[(''interface.*.address'', 1::nat), (''interface.*.mtu'', 2),
         (''interface.eth0.mtu'', 3), (''*.*.mtu'', 4)]" "''interface.eth1.mtu''"
         "PStr ''9000''" "\<lambda>pth v rule. [(pth, rule)]" "[''system'', ''mtu'']" False None
         "''system.mtu.''" "[]"]
  by (simp add: find_matching_rule_def path_matches_def rstrip_dot_def)

section \<open>Properties of the parser\<close>


lemma strip_id:
  "s \<noteq> [] \<Longrightarrow> \<not> is_space (hd s) \<Longrightarrow> \<not> is_space (last s) \<Longrightarrow> strip s = s"
proof -
  assume a: "s \<noteq> []" "\<not> is_space (hd s)" "\<not> is_space (last s)"
  have 1: "dropWhile is_space s = s" using a by (cases s) auto
  obtain y ys where r: "rev s = y # ys" using a(1) by (cases "rev s") auto
  have "hd (rev s) = last s" using a(1) by (simp add: hd_rev)
  then have "y = last s" by (simp only: r list.sel)
  then have "dropWhile is_space (y # ys) = y # ys" using a(3) by simp
  then have 2: "dropWhile is_space (rev s) = rev s" by (simp only: r)
  show ?thesis using 1 2 by (simp add: strip_def)
qed

lemma split_chr_not_Nil: "split_chr c s \<noteq> []"
  by (induction s) (auto split: list.splits)

lemma split_chr_append:
  "split_chr c (a @ c # b) = split_chr c a @ split_chr c b"
proof (induction a)
  case Nil
  then show ?case by simp
next
  case (Cons x a)
  then show ?case
    using split_chr_not_Nil [of c a] by (cases "split_chr c a") auto
qed

lemma split_chr_single: "c \<notin> set s \<Longrightarrow> split_chr c s = [s]"
  by (induction s) auto

lemma tokenize_loop_close:
  "quote_scan s in_quotes quote_char = (True, Some q) \<Longrightarrow>
   (\<forall>c. quote_char = Some c \<longrightarrow> c = CHR 0x22 \<or> c = CHR 0x27) \<Longrightarrow>
   tokenize_loop (s @ [q]) tokens cur in_quotes quote_char
     = tokenize_loop s tokens cur in_quotes quote_char
   \<and> quote_scan (s @ [q]) in_quotes quote_char = (False, Some q)"
proof (induction s arbitrary: in_quotes quote_char tokens cur)
  case Nil
  then show ?case by auto
next
  case (Cons c s)
  show ?case
  proof (cases "(c = CHR 0x22 \<or> c = CHR 0x27) \<and> (\<not> in_quotes \<or> Some c = quote_char)")
    case True
    then have "quote_scan s (\<not> in_quotes) (Some c) = (True, Some q)"
      using Cons.prems(1) by simp
    then show ?thesis using True Cons.IH [of "\<not> in_quotes" "Some c"] by auto
  next
    case False
    then have "quote_scan s in_quotes quote_char = (True, Some q)"
      using Cons.prems(1) by auto
    then show ?thesis using False Cons.IH [of in_quotes quote_char] Cons.prems(2) by auto
  qed
qed

lemma quote_scan_open:
  "quote_scan s in_quotes quote_char = (True, r) \<Longrightarrow> (in_quotes \<longrightarrow> quote_char \<noteq> None) \<Longrightarrow> r \<noteq> None"
  by (induction s arbitrary: in_quotes quote_char) (auto split: if_splits)

lemma tokenize_path_close:
  assumes "unterminated_quote s"
  shows "tokenize_path (s @ closing_quote s) = tokenize_path s
         \<and> \<not> unterminated_quote (s @ closing_quote s)"
proof -
  obtain r where r: "quote_scan s False None = (True, r)"
    using assms by (cases "quote_scan s False None") (simp add: unterminated_quote_def)
  then obtain q where q: "r = Some q" using quote_scan_open [of s False None r] by auto
  have "closing_quote s = [q]" using r q by (simp add: closing_quote_def)
  then show ?thesis
    using tokenize_loop_close [of s False None q "[]" "[]"] r q
    by (simp add: tokenize_path_def unterminated_quote_def)
qed

lemma dot_plus_end_line: "t \<noteq> [] \<Longrightarrow> CHR 0x0A \<notin> set t \<Longrightarrow> dot_plus_end t = Some t"
proof -
  assume a: "t \<noteq> []" "CHR 0x0A \<notin> set t"
  have tw: "takeWhile (\<lambda>c. c \<noteq> CHR 0x0A) t = t" using a(2) by (induction t) auto
  show ?thesis unfolding dot_plus_end_def Let_def tw using a(1) by simp
qed

lemma not_space_d: "\<not> is_space (CHR ''d'')"
  by (simp add: is_space_def)

lemma parse_line_delete:
  assumes "args \<noteq> []" and "\<not> is_space (hd args)" and "\<not> is_space (last args)"
    and "CHR 0x0A \<notin> set args"
  shows "parse_line (''delete '' @ args) =
           Some \<lparr>command_type = ''delete'', cpath = tokenize_path args, cvalue = None,
                 original = ''delete '' @ args\<rparr>"
proof -
  let ?line = "''delete '' @ args"
  have s: "strip ?line = ?line"
    using assms by (intro strip_id) (simp_all add: is_space_def)
  have d: "dropWhile is_space ?line = ?line" by (simp add: is_space_def)
  have nset: "match_keyword ''set'' ?line = None"
    using d by (simp add: match_keyword_def starts_ci_def lower_chr_def Let_def)
  have w: "ws_run ('' '' @ args) = 1"
    using assms by (cases args) (simp_all add: ws_run_def is_space_def)
  have del: "match_keyword ''delete'' ?line = Some args"
    using d w assms
    by (simp add: match_keyword_def starts_ci_def lower_chr_def Let_def counts_desc_def
          dot_plus_end_line)
  have sa: "strip args = args" using assms by (intro strip_id)
  show ?thesis
    using s nset del sa
    by (simp add: parse_line_def Let_def parse_delete_command_def del: append.simps)
qed


lemma is_space_unquote [simp]: "is_space (unquote c) = is_space c"
  by (simp add: unquote_def is_space_def)

lemma unquote_newline [simp]: "(unquote c = CHR 0x0A) = (c = CHR 0x0A)"
  by (simp add: unquote_def)

lemma unquote_newline' [simp]: "(unquote c \<noteq> CHR 0x0A) = (c \<noteq> CHR 0x0A)"
  by (simp add: unquote_def)

lemma unquote_space [simp]: "(unquote c = CHR '' '') = (c = CHR '' '')"
  by (simp add: unquote_def)

lemma is_space_comp [simp]: "is_space \<circ> unquote = is_space"
  by (simp add: fun_eq_iff)

lemma not_nl_comp [simp]: "(\<lambda>c. c \<noteq> CHR 0x0A) \<circ> unquote = (\<lambda>c. c \<noteq> CHR 0x0A)"
  by (simp add: fun_eq_iff)

lemma not_sp_comp [simp]: "(\<lambda>c. c \<noteq> CHR '' '') \<circ> unquote = (\<lambda>c. c \<noteq> CHR '' '')"
  by (simp add: fun_eq_iff)

lemma strip_unquote: "strip (map unquote s) = map unquote (strip s)"
  by (simp add: strip_def dropWhile_map rev_map)

lemma ws_run_unquote [simp]: "ws_run (map unquote s) = ws_run s"
  by (simp add: ws_run_def takeWhile_map)

lemma newline_in_unquote [simp]: "(CHR 0x0A \<in> unquote ` A) = (CHR 0x0A \<in> A)"
  by (auto simp: image_iff) (metis unquote_newline)+

lemma map_unquote_nl [simp]: "(map unquote v = [CHR 0x0A]) = (v = [CHR 0x0A])"
  by (cases v) auto

lemma dot_plus_end_unquote:
  "dot_plus_end (map unquote t) = map_option (map unquote) (dot_plus_end t)"
  by (simp add: dot_plus_end_def Let_def takeWhile_map drop_map)

lemma first_some_map:
  "first_some (map (map_option f) xs) = map_option f (first_some xs)"
  by (induction xs rule: first_some.induct) auto

lemma lower_chr_unquote:
  "k \<noteq> CHR ''x'' \<Longrightarrow> k \<noteq> CHR 0x22 \<Longrightarrow> k \<noteq> CHR 0x27 \<Longrightarrow>
   (lower_chr (unquote c) = k) = (lower_chr c = k)"
  by (auto simp: unquote_def lower_chr_def)

lemma map_lower_unquote:
  "plain_keyword kw \<Longrightarrow> (map lower_chr (map unquote t) = kw) = (map lower_chr t = kw)"
proof (induction t arbitrary: kw)
  case Nil
  then show ?case by simp
next
  case (Cons c t)
  show ?case
  proof (cases kw)
    case Nil
    then show ?thesis by simp
  next
    case (Cons k ks)
    have pk: "plain_keyword ks" using Cons.prems Cons by (simp add: plain_keyword_def)
    have "(lower_chr (unquote c) = k) = (lower_chr c = k)"
      using Cons.prems Cons by (intro lower_chr_unquote) (simp_all add: plain_keyword_def)
    then show ?thesis using Cons Cons.IH [OF pk] by (simp del: map_map)
  qed
qed

lemma starts_ci_unquote:
  "plain_keyword kw \<Longrightarrow> starts_ci kw (map unquote s) = starts_ci kw s"
  using map_lower_unquote [of kw "take (length kw) s"]
  by (simp add: starts_ci_def take_map del: map_map)

lemma match_keyword_unquote:
  "plain_keyword kw \<Longrightarrow>
   match_keyword kw (map unquote s) = map_option (map unquote) (match_keyword kw s)"
  by (simp add: match_keyword_def Let_def dropWhile_map starts_ci_unquote drop_map
        dot_plus_end_unquote first_some_map [symmetric] comp_def)


lemma plain_keywords [simp]:
  "plain_keyword ''set''" "plain_keyword ''delete''" "plain_keyword ''comment''"
  "plain_keyword ''rename''" "plain_keyword ''edit''" "plain_keyword ''to''"
  by (simp_all add: plain_keyword_def)

lemma match_comment_unquote:
  "match_comment (map unquote s)
     = map_option (map_prod (map unquote) (map unquote)) (match_comment s)"
  by (simp add: match_comment_def Let_def dropWhile_map starts_ci_unquote drop_map take_map
        dot_plus_end_unquote first_some_map [symmetric] map_concat comp_def option.map_comp
        if_distrib [of "map f" for f] del: upt_Suc cong: if_cong)

lemma match_rename_unquote:
  "match_rename (map unquote s)
     = map_option (map_prod (map unquote) (map unquote)) (match_rename s)"
  by (simp add: match_rename_def Let_def dropWhile_map starts_ci_unquote drop_map take_map
        dot_plus_end_unquote first_some_map [symmetric] map_concat comp_def option.map_comp
        if_distrib [of "map f" for f] del: upt_Suc cong: if_cong)

lemma match_value_unquote:
  "match_value (map unquote s)
     = map_option (map_prod (map unquote) (map unquote)) (match_value s)"
  by (simp add: match_value_def Let_def drop_map take_map takeWhile_map
        dot_plus_end_unquote first_some_map [symmetric] map_concat comp_def option.map_comp
        del: upt_Suc)


lemma take1_unquote:
  "c \<noteq> CHR ''x'' \<Longrightarrow> c \<noteq> CHR 0x22 \<Longrightarrow> c \<noteq> CHR 0x27 \<Longrightarrow>
   (take 1 (map unquote s) = [c]) = (take 1 s = [c])"
  by (cases s) (auto simp: unquote_def)

lemma parse_line_unquote:
  "map_option command_type (parse_line (map unquote line))
     = map_option command_type (parse_line line)"
proof -
  let ?l = "strip line"
  have s: "strip (map unquote line) = map unquote ?l" by (rule strip_unquote)
  have h: "(take 1 (map unquote ?l) = ''#'') = (take 1 ?l = ''#'')"
    by (rule take1_unquote) simp_all
  have b: "(take 1 (map unquote ?l) = ''!'') = (take 1 ?l = ''!'')"
    by (rule take1_unquote) simp_all
  show ?thesis
    unfolding parse_line_def Let_def s h b
    by (simp add: match_keyword_unquote match_comment_unquote match_rename_unquote
          parse_set_command_def parse_delete_command_def parse_comment_command_def
          parse_rename_command_def parse_edit_command_def Let_def
          split: option.splits prod.splits)
qed

lemma split_join_lines:
  "ls \<noteq> [] \<Longrightarrow> \<forall>l \<in> set ls. CHR 0x0A \<notin> set l \<Longrightarrow>
   split_chr (CHR 0x0A) (join_lines ls) = ls"
proof (induction ls rule: join_lines.induct)
  case 1
  then show ?case by simp
next
  case (2 l)
  then show ?case by (simp add: split_chr_single)
next
  case (3 l v va)
  then show ?case
    using split_chr_append [of "CHR 0x0A" l "join_lines (v # va)"]
    by (simp add: split_chr_single)
qed

lemma parse_config_join:
  "\<forall>l \<in> set (xs @ [line] @ ys). CHR 0x0A \<notin> set l \<Longrightarrow>
   parse_config (join_lines (xs @ [line] @ ys))
     = fold apply_line ys (apply_line line (fold apply_line xs (new_node [])))"
  using split_join_lines [of "xs @ [line] @ ys"] by (simp add: parse_config_def)


lemma match_keyword_hit:
  assumes "args \<noteq> []" and "\<not> is_space (hd args)" and "CHR 0x0A \<notin> set args"
    and "map lower_chr kw = kw" and "kw \<noteq> []" and "\<not> is_space (hd kw)"
  shows "match_keyword kw (kw @ '' '' @ args) = Some args"
proof -
  have d: "dropWhile is_space (kw @ '' '' @ args) = kw @ '' '' @ args"
    using assms(5,6) by (cases kw) simp_all
  have w: "ws_run ('' '' @ args) = 1"
    using assms(1,2) by (cases args) (simp_all add: ws_run_def is_space_def)
  show ?thesis
    unfolding match_keyword_def Let_def d
    using w assms(1,3,4) by (simp add: starts_ci_def counts_desc_def dot_plus_end_line)
qed

lemma parse_line_keywords:
  assumes "args \<noteq> []" and "\<not> is_space (hd args)" and "\<not> is_space (last args)"
    and "CHR 0x0A \<notin> set args"
  shows "parse_line (''set '' @ args) =
           Some \<lparr>command_type = ''set'', cpath = fst (split_path_and_value args),
                 cvalue = snd (split_path_and_value args), original = ''set '' @ args\<rparr>"
    and "parse_line (''edit '' @ args) =
           Some \<lparr>command_type = ''edit'', cpath = tokenize_path args, cvalue = None,
                 original = ''edit '' @ args\<rparr>"
proof -
  have sa: "strip args = args" using assms by (intro strip_id)
  have ss: "strip (''set '' @ args) = ''set '' @ args"
    using assms by (intro strip_id) (simp_all add: is_space_def)
  have se: "strip (''edit '' @ args) = ''edit '' @ args"
    using assms by (intro strip_id) (simp_all add: is_space_def)
  have hs: "match_keyword ''set'' (''set '' @ args) = Some args"
    using assms match_keyword_hit [of args "''set''"] by (simp add: lower_chr_def is_space_def)
  have he: "match_keyword ''edit'' (''edit '' @ args) = Some args"
    using assms match_keyword_hit [of args "''edit''"] by (simp add: lower_chr_def is_space_def)
  have d: "dropWhile is_space (''edit '' @ args) = ''edit '' @ args" by (simp add: is_space_def)
  have m1: "match_keyword ''set'' (''edit '' @ args) = None"
    and m2: "match_keyword ''delete'' (''edit '' @ args) = None"
    and m3: "match_comment (''edit '' @ args) = None"
    and m4: "match_rename (''edit '' @ args) = None"
    using d by (simp_all add: match_keyword_def match_comment_def match_rename_def
                  starts_ci_def lower_chr_def Let_def)
  show "parse_line (''set '' @ args) =
           Some \<lparr>command_type = ''set'', cpath = fst (split_path_and_value args),
                 cvalue = snd (split_path_and_value args), original = ''set '' @ args\<rparr>"
    using ss hs sa
    by (simp add: parse_line_def Let_def parse_set_command_def split: prod.splits
          del: append.simps)
  show "parse_line (''edit '' @ args) =
           Some \<lparr>command_type = ''edit'', cpath = tokenize_path args, cvalue = None,
                 original = ''edit '' @ args\<rparr>"
    using se he sa m1 m2 m3 m4
    by (simp add: parse_line_def Let_def parse_edit_command_def del: append.simps)
qed

text \<open>
  Claim C4, as amended. An unterminated quote is never a parse failure, and no line
  touches the parsing of another. For every input line, whether \<open>parse_line\<close> yields a
  command, and of which type, is what it is for the line with each quote character
  replaced by the letter \<open>x\<close>. Every line \<open>set args\<close>, \<open>delete args\<close> or
  \<open>edit args\<close> (one line, \<open>args\<close> not empty and without whitespace at either end)
  yields a command, with an open quote or without: \<open>set\<close> splits \<open>args\<close> with its
  quote characters left in, \<open>delete\<close> and \<open>edit\<close> tokenize it. \<open>_tokenize_path\<close> reads
  an open quote as closed at the end of its string. In every text, each line is parsed
  and applied on its own: the lines before it, then the line, then the lines after it.
\<close>

theorem unterminated_quote_parsed:
  "map_option command_type (parse_line (map unquote line))
     = map_option command_type (parse_line line)
   \<and> (unterminated_quote s \<longrightarrow>
        tokenize_path (s @ closing_quote s) = tokenize_path s
        \<and> \<not> unterminated_quote (s @ closing_quote s))
   \<and> (args \<noteq> [] \<and> \<not> is_space (hd args) \<and> \<not> is_space (last args)
        \<and> CHR 0x0A \<notin> set args \<longrightarrow>
        parse_line (''set '' @ args) =
          Some \<lparr>command_type = ''set'', cpath = fst (split_path_and_value args),
                cvalue = snd (split_path_and_value args), original = ''set '' @ args\<rparr>
        \<and> parse_line (''delete '' @ args) =
          Some \<lparr>command_type = ''delete'', cpath = tokenize_path args, cvalue = None,
                original = ''delete '' @ args\<rparr>
        \<and> parse_line (''edit '' @ args) =
          Some \<lparr>command_type = ''edit'', cpath = tokenize_path args, cvalue = None,
                original = ''edit '' @ args\<rparr>)
   \<and> ((\<forall>l \<in> set (xs @ [line] @ ys). CHR 0x0A \<notin> set l) \<longrightarrow>
        parse_config (join_lines (xs @ [line] @ ys))
          = fold apply_line ys (apply_line line (fold apply_line xs (new_node []))))"
  using parse_line_unquote [of line] tokenize_path_close [of s]
        parse_line_keywords [of args] parse_line_delete [of args]
        parse_config_join [of xs line ys]
  by blast

theorem unterminated_quote_parsed_witness:
  "unterminated_quote (''interfaces '' @ [CHR 0x22] @ ''eth0 x'')
   \<and> parse_line (''delete '' @ (''interfaces '' @ [CHR 0x22] @ ''eth0 x'')) =
       Some \<lparr>command_type = ''delete'', cpath = [''interfaces'', ''eth0 x''],
             cvalue = None,
             original = ''delete '' @ (''interfaces '' @ [CHR 0x22] @ ''eth0 x'')\<rparr>
   \<and> tokenize_path ((''interfaces '' @ [CHR 0x22] @ ''eth0 x'')
         @ closing_quote (''interfaces '' @ [CHR 0x22] @ ''eth0 x''))
       = [''interfaces'', ''eth0 x'']
   \<and> parse_config (join_lines ([''set a 1''] @ [''edit '' @ [CHR 0x27] @ ''b c''] @ [''set d 2'']))
       = fold apply_line [''set d 2'']
           (apply_line (''edit '' @ [CHR 0x27] @ ''b c'')
              (fold apply_line [''set a 1''] (new_node [])))"
proof -
  let ?args = "''interfaces '' @ [CHR 0x22] @ ''eth0 x''"
  let ?line = "''edit '' @ [CHR 0x27] @ ''b c''"
  have h1: "unterminated_quote ?args" by code_simp
  have h2: "?args \<noteq> [] \<and> \<not> is_space (hd ?args) \<and> \<not> is_space (last ?args)
            \<and> CHR 0x0A \<notin> set ?args"
    by code_simp
  have h3: "\<forall>l \<in> set ([''set a 1''] @ [?line] @ [''set d 2'']). CHR 0x0A \<notin> set l"
    by simp
  have t: "tokenize_path ?args = [''interfaces'', ''eth0 x'']" by code_simp
  show ?thesis
    using h1 h2 h3 t
      unterminated_quote_parsed [where line = ?line and s = ?args and args = ?args
        and xs = "[''set a 1'']" and ys = "[''set d 2'']"]
    by (simp del: append.simps list.set set_append fold_simps)
qed

text \<open>
  The claim as stated fails: a line with an open double quote yields a command, the
  text after the quote being its last token.
\<close>

theorem unterminated_quote_counterexample:
  "unterminated_quote (''delete interfaces '' @ [CHR 0x22] @ ''eth0'')
   \<and> parse_line (''delete interfaces '' @ [CHR 0x22] @ ''eth0'') =
       Some \<lparr>command_type = ''delete'', cpath = [''interfaces'', ''eth0''], cvalue = None,
             original = ''delete interfaces '' @ [CHR 0x22] @ ''eth0''\<rparr>"
  by code_simp

text \<open>
  Claim C1. On the two \<open>set\<close> lines of the scenario the code does not build the
  nested dictionary: \<open>VALUE_PATTERN\<close> matches at the first space, so each line sets the
  one node \<open>interfaces\<close> to the rest of the line, quotes included, and the second line
  overwrites the first.
\<close>

theorem scenario_path_is_first_token:
  "to_dict (parse_config
     (''set interfaces ethernet eth0 address '' @ [CHR 0x27] @ ''192.168.1.1/24'' @ [CHR 0x27]
      @ [CHR 0x0A]
      @ ''set interfaces ethernet eth0 description '' @ [CHR 0x22] @ ''Uplink'' @ [CHR 0x22]))
   = [(''interfaces'',
       DScalar (PStr (''ethernet eth0 description '' @ [CHR 0x22] @ ''Uplink'' @ [CHR 0x22])))]"
  by code_simp

section \<open>The restore\<close>

text \<open>
  Claim C8. On a device that holds the snapshot and rejects the \<open>set\<close> command, a
  restore with \<open>dry_run\<close> false reads the snapshot, takes the safety snapshot
  \<open>pre-restore-s1\<close> and stops there, at the \<open>await\<close> of a plain object: it sends no
  \<open>configure\<close>, no \<open>set\<close> and no \<open>discard\<close>, and its message is the text of the
  \<open>TypeError\<close>, not the line. The code behind the \<open>await\<close>, run on its own, sends
  \<open>discard\<close> and names the line.
\<close>

theorem restore_stops_at_await:
  "restore_from_snapshot log_manager ''s1'' False []
     = (failure (type_error_text ''ConfigSnapshot''),
        [''cat /b/snapshots/s1.vyos'', ''snapshot pre-restore-s1''])
   \<and> apply_configuration log_manager ''s1'' ''system host-name r1'' []
     = (failure ''Failed to apply command: system host-name r1'',
        [''configure'', ''set system host-name r1'', ''discard'', ''exit''])"
  by code_simp

end
